theory Spec2Isabelle
  imports Complex_Main "HOL-Library.Word" "HOL-Library.Char_ord"
begin

unbundle bit_operations_syntax

section \<open>r128.h: 128-bit (64.64) signed fixed-point arithmetic\<close>

text \<open>
  The header selects its primitives by preprocessor conditionals. This development
  follows the branches taken on \<^verbatim>\<open>__x86_64__\<close> (\<^verbatim>\<open>R128_INTEL\<close> and
  \<^verbatim>\<open>R128_64BIT\<close> both 1): the 64x64 multiply goes through \<^verbatim>\<open>unsigned __int128\<close>,
  the 128/64 divide is the \<^verbatim>\<open>divq\<close> instruction, and add, subtract and negate use
  \<^verbatim>\<open>_addcarry_u64\<close> and \<^verbatim>\<open>_subborrow_u64\<close>. The shifts follow the portable
  branch, the only one compiled outside \<^verbatim>\<open>_M_IX86\<close> and \<^verbatim>\<open>_M_X64\<close>.

  A failed \<^verbatim>\<open>R128_ASSERT\<close> and the divide fault of \<^verbatim>\<open>divq\<close> end the program; both are
  the value \<open>None\<close> of the functions that can reach them.
\<close>

subsection \<open>Data\<close>

type_synonym u64 = "64 word"
type_synonym u128 = "128 word"

record R128 =
  lo :: u64
  hi :: u64

definition R128_min :: R128 where
  "R128_min = \<lparr>lo = 0, hi = 0x8000000000000000\<rparr>"

definition R128_max :: R128 where
  "R128_max = \<lparr>lo = 0xffffffffffffffff, hi = 0x7fffffffffffffff\<rparr>"

definition R128_smallest :: R128 where
  "R128_smallest = \<lparr>lo = 1, hi = 0\<rparr>"

definition R128_zero :: R128 where
  "R128_zero = \<lparr>lo = 0, hi = 0\<rparr>"

definition R128_one :: R128 where
  "R128_one = \<lparr>lo = 0, hi = 1\<rparr>"

definition R128_decimal :: char where
  "R128_decimal = CHR ''.''"

text \<open>The macro \<^verbatim>\<open>R128_SET2(x, l, h)\<close>.\<close>

definition R128_SET2 :: "u64 \<Rightarrow> u64 \<Rightarrow> R128" where
  "R128_SET2 l h = \<lparr>lo = l, hi = h\<rparr>"

text \<open>The value a pattern stands for: the two's-complement integer \<open>hi:lo\<close> over \<open>2^64\<close>.\<close>

definition r128_value :: "R128 \<Rightarrow> rat" where
  "r128_value v = of_int (sint (hi v) * 2 ^ 64 + uint (lo v)) / 2 ^ 64"

subsection \<open>Wide primitives\<close>

text \<open>\<^verbatim>\<open>__builtin_clzll\<close>: the number of zero bits above the highest set bit.\<close>

fun clzll :: "nat \<Rightarrow> u64 \<Rightarrow> nat" where
  "clzll 0 x = 0"
| "clzll (Suc n) x = (if bit x n then 0 else Suc (clzll n x))"

definition r128__clz64 :: "u64 \<Rightarrow> nat" where
  "r128__clz64 x = (if x \<noteq> 0 then clzll 64 x else 64)"

definition r128__umul128 :: "u64 \<Rightarrow> u64 \<Rightarrow> R128" where
  "r128__umul128 a b =
     (let p0 = (ucast a :: u128) * (ucast b :: u128)
      in \<lparr>lo = ucast p0, hi = ucast (drop_bit 64 p0)\<rparr>)"

text \<open>
  \<^verbatim>\<open>divq\<close>: quotient and remainder of \<open>nhi:nlo\<close> by \<open>d\<close>. The instruction faults when
  \<open>d = 0\<close> or when the quotient does not fit 64 bits, that is when \<open>d \<le> nhi\<close>.
\<close>

definition r128__udiv128 :: "u64 \<Rightarrow> u64 \<Rightarrow> u64 \<Rightarrow> (u64 \<times> u64) option" where
  "r128__udiv128 nlo nhi d =
     (if d = 0 \<or> d \<le> nhi then None
      else let n = push_bit 64 (ucast nhi :: u128) OR ucast nlo
           in Some (ucast (n div ucast d), ucast (n mod ucast d)))"

text \<open>\<^verbatim>\<open>_addcarry_u64\<close> and \<^verbatim>\<open>_subborrow_u64\<close>: the carry out and the 64-bit result.\<close>

definition addcarry_u64 :: "bool \<Rightarrow> u64 \<Rightarrow> u64 \<Rightarrow> bool \<times> u64" where
  "addcarry_u64 c a b =
     (2 ^ 64 \<le> uint a + uint b + (if c then 1 else 0), a + b + (if c then 1 else 0))"

definition subborrow_u64 :: "bool \<Rightarrow> u64 \<Rightarrow> u64 \<Rightarrow> bool \<times> u64" where
  "subborrow_u64 c a b =
     (uint a < uint b + (if c then 1 else 0), a - b - (if c then 1 else 0))"

subsection \<open>Bitwise, additive, shifts\<close>

definition r128Copy :: "R128 \<Rightarrow> R128" where
  "r128Copy src = \<lparr>lo = lo src, hi = hi src\<rparr>"

definition r128Not :: "R128 \<Rightarrow> R128" where
  "r128Not src = \<lparr>lo = NOT (lo src), hi = NOT (hi src)\<rparr>"

definition r128Neg :: "R128 \<Rightarrow> R128" where
  "r128Neg src =
     (let (carry, l) = addcarry_u64 False (NOT (lo src)) 1;
          (carry', h) = addcarry_u64 carry (NOT (hi src)) 0
      in \<lparr>lo = l, hi = h\<rparr>)"

definition r128Add :: "R128 \<Rightarrow> R128 \<Rightarrow> R128" where
  "r128Add a b =
     (let (carry, l) = addcarry_u64 False (lo a) (lo b);
          (carry', h) = addcarry_u64 carry (hi a) (hi b)
      in \<lparr>lo = l, hi = h\<rparr>)"

definition r128Sub :: "R128 \<Rightarrow> R128 \<Rightarrow> R128" where
  "r128Sub a b =
     (let (borrow, l) = subborrow_u64 False (lo a) (lo b);
          (borrow', h) = subborrow_u64 borrow (hi a) (hi b)
      in \<lparr>lo = l, hi = h\<rparr>)"

text \<open>
  The shift amount is a C \<^verbatim>\<open>int\<close>; \<^verbatim>\<open>amount &= 127\<close> leaves a value in \<open>0..127\<close>,
  also for a negative amount (two's complement).
\<close>

definition r128Shl :: "R128 \<Rightarrow> int \<Rightarrow> R128" where
  "r128Shl src amount =
     (let r0 = lo src; r1 = hi src; amount = nat (amount AND 127)
      in if 64 \<le> amount then \<lparr>lo = 0, hi = push_bit (amount - 64) r0\<rparr>
         else if amount \<noteq> 0
           then \<lparr>lo = push_bit amount r0,
                 hi = push_bit amount r1 OR drop_bit (64 - amount) r0\<rparr>
         else \<lparr>lo = r0, hi = r1\<rparr>)"

definition r128Shr :: "R128 \<Rightarrow> int \<Rightarrow> R128" where
  "r128Shr src amount =
     (let r2 = lo src; r3 = hi src; amount = nat (amount AND 127)
      in if 64 \<le> amount then \<lparr>lo = drop_bit (amount - 64) r3, hi = 0\<rparr>
         else if amount \<noteq> 0
           then \<lparr>lo = drop_bit amount r2 OR push_bit (64 - amount) r3,
                 hi = drop_bit amount r3\<rparr>
         else \<lparr>lo = r2, hi = r3\<rparr>)"

subsection \<open>Comparison, sign, floor and ceil, integer conversion\<close>

definition r128__ucmp :: "R128 \<Rightarrow> R128 \<Rightarrow> int" where
  "r128__ucmp a b =
     (if hi a = hi b then
        (if hi a > hi b then 1 else - 1)
      else if lo a = lo b then 0
      else (if lo a > lo b then 1 else - 1))"

definition r128Cmp :: "R128 \<Rightarrow> R128 \<Rightarrow> int" where
  "r128Cmp a b =
     (if hi a = hi b then
        (if lo a = lo b then 0 else if lo a > lo b then 1 else - 1)
      else if sint (hi a) > sint (hi b) then 1
      else - 1)"

definition r128IsNeg :: "R128 \<Rightarrow> bool" where
  "r128IsNeg v = (sint (hi v) < 0)"

definition r128Floor :: "R128 \<Rightarrow> R128" where
  "r128Floor v =
     (if sint (hi v) < 0 then \<lparr>lo = 0, hi = hi v - (if lo v \<noteq> 0 then 1 else 0)\<rparr>
      else \<lparr>lo = 0, hi = hi v\<rparr>)"

definition r128Ceil :: "R128 \<Rightarrow> R128" where
  "r128Ceil v =
     (if sint (hi v) > 0 then \<lparr>lo = 0, hi = hi v + (if lo v \<noteq> 0 then 1 else 0)\<rparr>
      else \<lparr>lo = 0, hi = hi v\<rparr>)"

text \<open>An \<^verbatim>\<open>R128_S64\<close> is the integer it denotes, in \<open>-2^63 .. 2^63 - 1\<close>.\<close>

definition r128FromInt :: "int \<Rightarrow> R128" where
  "r128FromInt v = \<lparr>lo = 0, hi = word_of_int v\<rparr>"

definition r128ToInt :: "R128 \<Rightarrow> int" where
  "r128ToInt v = sint (hi v)"

subsection \<open>Fixed-point multiply\<close>

definition r128__umul :: "R128 \<Rightarrow> R128 \<Rightarrow> R128" where
  "r128__umul a b =
     (let p0 = (ucast (lo a) :: u128) * ucast (lo b);
          p1 = (ucast (lo a) :: u128) * ucast (hi b);
          p2 = (ucast (hi a) :: u128) * ucast (lo b);
          p3 = (ucast (hi a) :: u128) * ucast (hi b);
          p0 = push_bit 64 p3 + p2 + p1 + drop_bit 64 p0
                 + ucast (drop_bit 63 (ucast p0 :: u64))
      in \<lparr>lo = ucast p0, hi = ucast (drop_bit 64 p0)\<rparr>)"

definition r128Mul :: "R128 \<Rightarrow> R128 \<Rightarrow> R128" where
  "r128Mul a b =
     (let ta = r128Copy a; tb = r128Copy b; sign = False;
          (ta, sign) = (if r128IsNeg ta then (r128Neg ta, \<not> sign) else (ta, sign));
          (tb, sign) = (if r128IsNeg tb then (r128Neg tb, \<not> sign) else (tb, sign));
          tc = r128__umul ta tb;
          tc = (if sign then r128Neg tc else tc)
      in r128Copy tc)"






subsection \<open>Fixed-point divide\<close>

text \<open>
  \<open>r128__norm\<close> returns 1 on overflow, before it writes anything: that is \<open>None\<close>.
  Otherwise it returns 0 and has written \<open>n\<close>, \<open>d\<close> and \<open>*n2\<close>: that is \<open>Some (n, d, n2)\<close>.
  Its only callers assert a nonzero divisor first, so a shift by 64 is never reached.
\<close>

definition r128__norm :: "R128 \<Rightarrow> R128 \<Rightarrow> (R128 \<times> R128 \<times> u64) option" where
  "r128__norm n d =
     (let d1 = hi d; d0 = lo d; n1 = hi n; n0 = lo n
      in if d1 \<noteq> 0 then
           (let shift = r128__clz64 d1
            in if shift \<noteq> 0 then
                 Some (R128_SET2 (push_bit shift n0)
                         (push_bit shift n1 OR drop_bit (64 - shift) n0),
                       R128_SET2 (push_bit shift d0)
                         (push_bit shift d1 OR drop_bit (64 - shift) d0),
                       drop_bit (64 - shift) n1)
               else Some (R128_SET2 n0 n1, R128_SET2 d0 d1, 0))
         else
           (let shift = r128__clz64 d0
            in if shift \<le> r128__clz64 n1 then None
               else if shift \<noteq> 0 then
                 Some (R128_SET2 0 (push_bit shift n0),
                       R128_SET2 0 (push_bit shift d0),
                       push_bit shift n1 OR drop_bit (64 - shift) n0)
               else Some (R128_SET2 0 n0, R128_SET2 0 d0, n1)))"

text \<open>
  The refinement loop of a quotient digit (the labels \<^verbatim>\<open>refine1\<close> and \<^verbatim>\<open>refine0\<close>):
  \<open>q\<close> is the digit, \<open>t0\<close> the partial remainder over the next limb, and \<open>n1\<close>, \<open>d0\<close> the
  variables of that name at the loop.
\<close>

function udiv_refine :: "u64 \<Rightarrow> R128 \<Rightarrow> u64 \<Rightarrow> u64 \<Rightarrow> u64" where
  "udiv_refine q t0 n1 d0 =
     (if 0 < r128__ucmp (r128__umul128 q d0) t0 then
        (if hi t0 < NOT n1 + 1 then udiv_refine (q - 1) (t0\<lparr>hi := hi t0 + n1\<rparr>) n1 d0
         else q - 1)
      else q)"
  by pat_completeness auto
termination
proof (relation "measure (\<lambda>(q, t0, n1, d0). nat (2 ^ 64 - uint (hi t0)))")
  show "wf (measure (\<lambda>(q, t0, n1, d0). nat (2 ^ 64 - uint (hi t0))))"
    by simp
next
  fix q :: u64 and t0 :: R128 and n1 d0 :: u64
  assume lt: "hi t0 < NOT n1 + 1"
  have m: "NOT n1 + 1 = - n1"
    by (simp add: minus_eq_not_plus_1)
  have nz: "n1 \<noteq> 0"
    using lt m by auto
  have pos: "0 < uint n1"
    using nz by (simp add: word_uint_eq_iff less_le)
  have "uint (- n1) = (- uint n1) mod 2 ^ 64"
    by (simp add: uint_word_ariths take_bit_eq_mod)
  also have "\<dots> = 2 ^ 64 - uint n1"
    using pos uint_lt2p [of n1] by (simp add: zmod_zminus1_eq_if)
  finally have "uint (- n1) = 2 ^ 64 - uint n1" .
  with lt m have b: "uint (hi t0) + uint n1 < 2 ^ 64"
    by (simp add: word_less_def)
  then have s: "uint (hi t0 + n1) = uint (hi t0) + uint n1"
    by (simp add: uint_word_ariths take_bit_eq_mod)
  from pos s b show "((q - 1, t0\<lparr>hi := hi t0 + n1\<rparr>, n1, d0), (q, t0, n1, d0))
      \<in> measure (\<lambda>(q, t0, n1, d0). nat (2 ^ 64 - uint (hi t0)))"
    using uint_lt2p [of "hi t0"] by simp
qed


definition r128__udiv :: "R128 \<Rightarrow> R128 \<Rightarrow> R128 option" where
  "r128__udiv dividend divisor =
     (if \<not> (hi divisor \<noteq> 0 \<or> lo divisor \<noteq> 0) then None
      else case r128__norm (r128Copy dividend) (r128Copy divisor) of
        None \<Rightarrow> Some (r128Copy R128_max)
      | Some (n, d, n3) \<Rightarrow>
          (let d1 = hi d; d0 = lo d; n2 = hi n; n1 = lo n
           in if \<not> n3 < d1 then None
              else case r128__udiv128 n2 n3 d1 of
                None \<Rightarrow> None
              | Some (q, r) \<Rightarrow>
                  (let q_hi = udiv_refine q \<lparr>lo = n1, hi = r\<rparr> n1 d0;
                       t0 = \<lparr>lo = n1, hi = n2\<rparr>;
                       t1 = r128__umul128 q_hi d0;
                       t2 = r128__umul128 q_hi d1;
                       t2 = \<lparr>lo = 0, hi = lo t2\<rparr>;
                       tmp = r128Add t1 t2;
                       tmp = r128Sub t0 tmp;
                       n2 = hi tmp;
                       n1 = lo tmp
                   in if \<not> n2 < d1 then None
                      else case r128__udiv128 n1 n2 d1 of
                        None \<Rightarrow> None
                      | Some (q, r) \<Rightarrow>
                          (let q_lo = udiv_refine q \<lparr>lo = 0, hi = r\<rparr> n1 d0
                           in Some (r128Copy \<lparr>lo = q_lo, hi = q_hi\<rparr>)))))"

definition r128Div :: "R128 \<Rightarrow> R128 \<Rightarrow> R128 option" where
  "r128Div a b =
     (let tn = r128Copy a; td = r128Copy b; sign = False;
          (tn, sign) = (if r128IsNeg tn then (r128Neg tn, \<not> sign) else (tn, sign))
      in if lo td = 0 \<and> hi td = 0 then
           (if sign then Some (r128Copy R128_min) else Some (r128Copy R128_max))
         else
           (let (td, sign) = (if r128IsNeg td then (r128Neg td, \<not> sign) else (td, sign))
            in case r128__udiv tn td of
                 None \<Rightarrow> None
               | Some tq \<Rightarrow> Some (r128Copy (if sign then r128Neg tq else tq))))"

text \<open>
  What the refined digit is meant to be: the quotient of the three limbs \<open>n3:n2:n1\<close> by the
  normalized divisor \<open>d1:d0\<close>.
\<close>

definition quotient_digit_spec :: "u64 \<Rightarrow> u64 \<Rightarrow> u64 \<Rightarrow> u64 \<Rightarrow> u64 \<Rightarrow> nat" where
  "quotient_digit_spec n3 n2 n1 d1 d0 =
     ((unat n3 * 2 ^ 64 + unat n2) * 2 ^ 64 + unat n1) div (unat d1 * 2 ^ 64 + unat d0)"

subsection \<open>Formatter\<close>

text \<open>
  The destination is the byte array \<open>dst\<close> the caller passes with its size. The scratch
  array \<open>buf\<close> is the list of the characters stored so far, so \<open>cursor\<close> is its length and
  \<open>decimal\<close> an index into it; at most 107 fractional digits, the separator and 20 whole digits
  are stored, which fit its 128 bytes.

  The macro \<^verbatim>\<open>R128__WRITE\<close> works on \<open>dstSize\<close> and \<open>dstp\<close>; \<open>padCnt\<close> is kept with them,
  since the padding loops and the sign branches update it between writes. A write either
  goes on, or jumps to \<^verbatim>\<open>finish\<close>, or would store outside \<open>dst\<close>.
\<close>

datatype R128ToStringSign =
  R128ToStringSign_Default | R128ToStringSign_Space | R128ToStringSign_Plus

record R128ToStringFormat =
  sign :: R128ToStringSign
  width :: int
  precision :: int
  zeroPad :: int
  decimal :: int
  leftAlign :: int

definition R128__defaultFormat :: R128ToStringFormat where
  "R128__defaultFormat =
     \<lparr>sign = R128ToStringSign_Default, width = 0, precision = - 1,
      zeroPad = 0, decimal = 0, leftAlign = 0\<rparr>"

record writer =
  dstSize :: u64
  dstp :: nat
  dst :: string
  padCnt :: int

datatype wr = Go writer | Finish writer | Overrun

definition R128__WRITE :: "char \<Rightarrow> writer \<Rightarrow> wr" where
  "R128__WRITE c s =
     (if dstSize s = 1 then Finish (s\<lparr>dstSize := dstSize s - 1\<rparr>)
      else if dstp s < length (dst s)
        then Go (s\<lparr>dstSize := dstSize s - 1, dst := (dst s)[dstp s := c], dstp := dstp s + 1\<rparr>)
      else Overrun)"

definition then_wr :: "wr \<Rightarrow> (writer \<Rightarrow> wr) \<Rightarrow> wr" where
  "then_wr r f = (case r of Go s \<Rightarrow> f s | Finish s \<Rightarrow> Finish s | Overrun \<Rightarrow> Overrun)"

definition write_sign :: "bool \<Rightarrow> R128ToStringFormat \<Rightarrow> writer \<Rightarrow> wr" where
  "write_sign sign' format s =
     (if sign' then R128__WRITE (CHR ''-'') s
      else if sign format = R128ToStringSign_Plus then R128__WRITE (CHR ''+'') s
      else if sign format = R128ToStringSign_Space then R128__WRITE (CHR '' '') s
      else Go (s\<lparr>padCnt := padCnt s + 1\<rparr>))"

function pad_loop :: "char \<Rightarrow> writer \<Rightarrow> wr" where
  "pad_loop padChar s =
     (if 0 < padCnt s then
        (case R128__WRITE padChar s of
           Go s' \<Rightarrow> pad_loop padChar (s'\<lparr>padCnt := padCnt s' - 1\<rparr>)
         | Finish s' \<Rightarrow> Finish s'
         | Overrun \<Rightarrow> Overrun)
      else Go s)"
  by pat_completeness auto
termination
  by (relation "measure (\<lambda>(padChar, s). nat (padCnt s))")
    (auto simp: R128__WRITE_def split: if_splits)

function whole_copy :: "string \<Rightarrow> int \<Rightarrow> int \<Rightarrow> writer \<Rightarrow> wr" where
  "whole_copy buf i decimal' s =
     (if decimal' \<le> i then
        (case R128__WRITE (buf ! nat i) s of
           Go s' \<Rightarrow> whole_copy buf (i - 1) decimal' s'
         | Finish s' \<Rightarrow> Finish s'
         | Overrun \<Rightarrow> Overrun)
      else Go s)"
  by pat_completeness auto
termination
  by (relation "measure (\<lambda>(buf, i, decimal', s). nat (i - decimal' + 1))") auto

function frac_copy :: "string \<Rightarrow> int \<Rightarrow> int \<Rightarrow> writer \<Rightarrow> wr" where
  "frac_copy buf i decimal' s =
     (if i < decimal' then
        (case R128__WRITE (buf ! nat i) s of
           Go s' \<Rightarrow> frac_copy buf (i + 1) decimal' s'
         | Finish s' \<Rightarrow> Finish s'
         | Overrun \<Rightarrow> Overrun)
      else Go s)"
  by pat_completeness auto
termination
  by (relation "measure (\<lambda>(buf, i, decimal', s). nat (decimal' - i))") auto

fun trail_loop :: "nat \<Rightarrow> writer \<Rightarrow> wr" where
  "trail_loop trail s =
     (if trail \<noteq> 0 then
        (case R128__WRITE (CHR ''0'') s of
           Go s' \<Rightarrow> trail_loop (trail - 1) s'
         | Finish s' \<Rightarrow> Finish s'
         | Overrun \<Rightarrow> Overrun)
      else Go s)"

definition finish :: "writer \<Rightarrow> (string \<times> int) option" where
  "finish s =
     (if dstp s < length (dst s)
      then Some ((dst s)[dstp s := CHR 0x00], sint (word_of_nat (dstp s) :: 32 word))
      else None)"

fun carry_loop :: "string \<Rightarrow> nat \<Rightarrow> string \<times> bool" where
  "carry_loop buf 0 = (buf, True)"
| "carry_loop buf (Suc c) =
     (let d = char_of (of_char (buf ! c) + (1 :: nat))
      in if d \<le> CHR ''9'' then (buf[c := d], False)
         else carry_loop (buf[c := CHR ''0'']) c)"

partial_function (option) frac_loop ::
  "u64 \<Rightarrow> string \<Rightarrow> u64 \<Rightarrow> bool \<Rightarrow> int \<Rightarrow> (string \<times> u64) option" where
  "frac_loop tmp_lo buf whole fullPrecision precision' =
     (if tmp_lo \<noteq> 0 \<or> (fullPrecision \<and> precision' \<noteq> 0) then
        (if int (length buf) = precision' then
           (if sint tmp_lo < 0 then
              (case carry_loop buf (length buf) of
                 (buf', False) \<Rightarrow> Some (buf', whole)
               | (buf', True) \<Rightarrow> Some (buf', whole + 1))
            else Some (buf, whole))
         else
           (let tmp = r128__umul128 tmp_lo 10
            in frac_loop (lo tmp) (buf @ [char_of (unat (hi tmp) + of_char (CHR ''0''))])
                 whole fullPrecision precision'))
      else Some (buf, whole))"

declare frac_loop.simps [code]

function whole_loop :: "u64 \<Rightarrow> string \<Rightarrow> string" where
  "whole_loop whole buf =
     (let digit = whole mod 10;
          whole = whole div 10;
          buf = buf @ [char_of (unat digit + of_char (CHR ''0''))]
      in if whole \<noteq> 0 then whole_loop whole buf else buf)"
  by pat_completeness auto
termination
proof (relation "measure (\<lambda>(whole, buf). unat whole)")
  show "wf (measure (\<lambda>(whole, buf). unat whole))" by simp
next
  fix whole :: u64 and buf :: string and x xa xb
  assume "xa = whole div 10" "xa \<noteq> 0"
  then have "whole div 10 \<noteq> 0" by simp
  then have "unat (whole div 10) \<noteq> 0"
    by (simp only: unat_0_iff not_False_eq_True)
  moreover have "unat (whole div 10) = unat whole div 10"
    by (simp add: unat_div)
  ultimately have "unat (whole div 10) < unat whole"
    by (metis div_less_dividend div_0 gr0I one_less_numeral_iff semiring_norm(76))
  with \<open>xa = whole div 10\<close> show "((xa, xb), whole, buf) \<in> measure (\<lambda>(whole, buf). unat whole)"
    by simp
qed


definition emit ::
  "bool \<Rightarrow> R128ToStringFormat \<Rightarrow> string \<Rightarrow> int \<Rightarrow> nat \<Rightarrow> writer \<Rightarrow> wr" where
  "emit sign' format buf decimal' trail s0 =
     then_wr (then_wr (then_wr (then_wr (then_wr
       (if leftAlign format = 0 then
          then_wr (if zeroPad format \<noteq> 0 then write_sign sign' format s0 else Go s0)
            (pad_loop (if zeroPad format \<noteq> 0 then CHR ''0'' else CHR '' ''))
        else Go s0)
       (\<lambda>s. if leftAlign format \<noteq> 0 \<or> zeroPad format = 0 then write_sign sign' format s
            else Go s))
       (whole_copy buf (int (length buf) - 1) decimal'))
       (frac_copy buf 0 decimal'))
       (\<lambda>s. if leftAlign format \<noteq> 0
            then pad_loop (if zeroPad format \<noteq> 0 then CHR ''0'' else CHR '' '') s
            else Go s))
       (trail_loop trail)"

text \<open>
  \<open>r128__format\<close> in two parts. The first, \<open>format_digits\<close>, is the function up to the
  definition of \<^verbatim>\<open>R128__WRITE\<close>: it fills \<open>buf\<close> and computes \<open>sign\<close>, \<open>decimal\<close>, \<open>trail\<close>
  and \<open>width\<close>. The second, \<open>emit\<close>, is every write to \<open>dst\<close> up to the label \<^verbatim>\<open>finish\<close>.
\<close>

definition format_digits ::
  "R128 \<Rightarrow> R128ToStringFormat \<Rightarrow> (bool \<times> string \<times> int \<times> nat \<times> int) option" where
  "format_digits v format =
     (let tmp = r128Copy v;
          (tmp, sign') = (if r128IsNeg tmp then (r128Neg tmp, True) else (tmp, False));
          width' = (if width format < 0 then 0 else width format);
          (fullPrecision, precision', trail) =
            (if precision format < 0 then (False, 20, 0)
             else if 107 < precision format then (True, 107, nat (precision format - 107))
             else (True, precision format, 0));
          whole = hi tmp
      in case (if lo tmp \<noteq> 0 \<or> decimal format \<noteq> 0 then
                 (case frac_loop (lo tmp) [] whole fullPrecision precision' of
                    None \<Rightarrow> None
                  | Some (buf, whole) \<Rightarrow>
                      if decimal format \<noteq> 0 \<or> precision' \<noteq> 0
                      then Some (buf @ [R128_decimal], int (length buf), whole)
                      else Some (buf, 0, whole))
               else Some ([], 0, whole)) of
           None \<Rightarrow> None
         | Some (buf, decimal', whole) \<Rightarrow>
             Some (sign', whole_loop whole buf, decimal', trail, width'))"

definition r128__format ::
  "string \<Rightarrow> u64 \<Rightarrow> R128 \<Rightarrow> R128ToStringFormat \<Rightarrow> (string \<times> int) option" where
  "r128__format dst_in dstSize_in v format =
     (if \<not> 0 < dstSize_in then None
      else case format_digits v format of
        None \<Rightarrow> None
      | Some (sign', buf, decimal', trail, width') \<Rightarrow>
          (let s0 = \<lparr>dstSize = dstSize_in, dstp = 0, dst = dst_in,
                     padCnt = width' - int (length buf) - 1\<rparr>
           in case emit sign' format buf decimal' trail s0 of
                Go s \<Rightarrow> finish s
              | Finish s \<Rightarrow> finish s
              | Overrun \<Rightarrow> None))"

definition r128ToStringOpt ::
  "string \<Rightarrow> u64 \<Rightarrow> R128 \<Rightarrow> R128ToStringFormat \<Rightarrow> (string \<times> int) option" where
  "r128ToStringOpt dst_in dstSize_in v opt = r128__format dst_in dstSize_in v opt"

definition r128ToString :: "string \<Rightarrow> u64 \<Rightarrow> R128 \<Rightarrow> (string \<times> int) option" where
  "r128ToString dst_in dstSize_in v = r128__format dst_in dstSize_in v R128__defaultFormat"

subsection \<open>Parser\<close>

text \<open>
  A C string is the list of its characters before the terminator; reading at its end gives
  the terminator. The parser's pointer \<open>s\<close> is the rest of the string, and the value stored
  through \<open>endptr\<close> is the rest left when the parser returns.

  In the fractional part the pointer runs forward over the digits (\<open>frac_scan\<close>) and then
  backward over them (\<open>frac_back\<close>, on the reversed run). The backward loop
  \<^verbatim>\<open>for (--s; s >= exp; --s)\<close> ends with \<open>s\<close> one before \<open>exp\<close>, that is at the separator:
  with a fractional part, \<open>endptr\<close> is left at the separator, not after the digits.
\<close>

text \<open>What a reader of the destination sees: the bytes before the first terminator.\<close>

definition c_string :: "string \<Rightarrow> string" where
  "c_string bytes = takeWhile (\<lambda>c. c \<noteq> CHR 0x00) bytes"

definition peek :: "string \<Rightarrow> char" where
  "peek s = (case s of [] \<Rightarrow> CHR 0x00 | c # cs \<Rightarrow> c)"

fun skip_ws :: "string \<Rightarrow> string" where
  "skip_ws [] = []"
| "skip_ws (c # cs) =
     (if c = CHR '' '' \<or> c = CHR 0x09 \<or> c = CHR 0x0D \<or> c = CHR 0x0A \<or> c = CHR 0x0B
      then skip_ws cs else c # cs)"

fun whole_part :: "u64 \<Rightarrow> u64 \<Rightarrow> string \<Rightarrow> u64 \<times> string" where
  "whole_part base hi_acc [] = (hi_acc, [])"
| "whole_part base hi_acc (c # cs) =
     (if CHR ''0'' \<le> c \<and> c \<le> CHR ''9''
        then whole_part base (hi_acc * base + of_nat (of_char c - of_char (CHR ''0''))) cs
      else if base = 16 \<and> CHR ''a'' \<le> c \<and> c \<le> CHR ''f''
        then whole_part base (hi_acc * base + of_nat (of_char c - of_char (CHR ''a'') + 10)) cs
      else if base = 16 \<and> CHR ''A'' \<le> c \<and> c \<le> CHR ''F''
        then whole_part base (hi_acc * base + of_nat (of_char c - of_char (CHR ''A'') + 10)) cs
      else (hi_acc, c # cs))"

fun frac_scan :: "u64 \<Rightarrow> string \<Rightarrow> string \<times> string" where
  "frac_scan base [] = ([], [])"
| "frac_scan base (c # cs) =
     (if (CHR ''0'' \<le> c \<and> c \<le> CHR ''9'')
         \<or> (base = 16 \<and> (CHR ''a'' \<le> c \<and> c \<le> CHR ''f''))
         \<or> (base = 16 \<and> (CHR ''A'' \<le> c \<and> c \<le> CHR ''F''))
      then (let (run, rest) = frac_scan base cs in (c # run, rest))
      else ([], c # cs))"

fun frac_back :: "u64 \<Rightarrow> u64 \<Rightarrow> string \<Rightarrow> u64 option" where
  "frac_back base lo_acc [] = Some lo_acc"
| "frac_back base lo_acc (c # cs) =
     (let digit =
        (if CHR ''0'' \<le> c \<and> c \<le> CHR ''9'' then of_nat (of_char c - of_char (CHR ''0''))
         else if CHR ''a'' \<le> c \<and> c \<le> CHR ''f''
           then of_nat (of_char c - of_char (CHR ''a'') + 10)
         else of_nat (of_char c - of_char (CHR ''A'') + 10))
      in case r128__udiv128 lo_acc digit base of
           None \<Rightarrow> None
         | Some (q, unused) \<Rightarrow> frac_back base q cs)"

definition r128FromString :: "string \<Rightarrow> (R128 \<times> string) option" where
  "r128FromString s_in =
     (let s = skip_ws s_in;
          (sign', s) = (if peek s = CHR ''-'' then (True, tl s)
                        else if peek s = CHR ''+'' then (False, tl s)
                        else (False, s));
          (base, s) = (if peek s = CHR ''0'' \<and> (peek (tl s) = CHR ''x'' \<or> peek (tl s) = CHR ''X'')
                       then (16, tl (tl s)) else (10, s));
          (hi_acc, s) = whole_part base 0 s
      in case (if peek s = R128_decimal then
                 (let (run, rest) = frac_scan base (tl s)
                  in case frac_back base 0 (rev run) of
                       None \<Rightarrow> None
                     | Some lo_acc \<Rightarrow> Some (lo_acc, s))
               else Some (0, s)) of
           None \<Rightarrow> None
         | Some (lo_acc, s) \<Rightarrow>
             (let dst' = R128_SET2 lo_acc hi_acc;
                  dst' = (if sign' then r128Neg dst' else dst')
              in Some (dst', s)))"

text \<open>The integer a run of digits denotes in a base, most significant digit first.\<close>

definition digit_value :: "char \<Rightarrow> nat" where
  "digit_value c =
     (if CHR ''0'' \<le> c \<and> c \<le> CHR ''9'' then of_char c - of_char (CHR ''0'')
      else if CHR ''a'' \<le> c \<and> c \<le> CHR ''f'' then of_char c - of_char (CHR ''a'') + 10
      else of_char c - of_char (CHR ''A'') + 10)"

definition digits_value :: "nat \<Rightarrow> string \<Rightarrow> nat" where
  "digits_value base ds = foldl (\<lambda>a c. a * base + digit_value c) 0 ds"

text \<open>
  The characters the parser skips as blanks, and the characters its whole-part loop takes
  as digits in a base (the tests of the loops at lines 1244 and 1269 to 1274).
\<close>

definition is_space :: "char \<Rightarrow> bool" where
  "is_space c \<longleftrightarrow>
     c = CHR '' '' \<or> c = CHR 0x09 \<or> c = CHR 0x0D \<or> c = CHR 0x0A \<or> c = CHR 0x0B"

definition base_digit :: "u64 \<Rightarrow> char \<Rightarrow> bool" where
  "base_digit base c \<longleftrightarrow>
     (CHR ''0'' \<le> c \<and> c \<le> CHR ''9'')
     \<or> (base = 16 \<and> CHR ''a'' \<le> c \<and> c \<le> CHR ''f'')
     \<or> (base = 16 \<and> CHR ''A'' \<le> c \<and> c \<le> CHR ''F'')"

subsection \<open>The 128-bit integer of a pattern\<close>

definition to128 :: "R128 \<Rightarrow> u128" where
  "to128 v = word_cat (hi v) (lo v)"

subsection \<open>Invariants of the writes to the destination\<close>

text \<open>
  While the writes go on, \<open>dstp\<close> and the countdown \<open>dstSize\<close> add up to the size of the
  destination, the countdown is not 0, and the bytes from \<open>dstp\<close> on are the caller's.
  \<open>wr_ok dst0 k r\<close>: the outcome \<open>r\<close> keeps this, with at least \<open>k\<close> bytes written unless
  the output was cut at the last byte.
\<close>

definition winv :: "string \<Rightarrow> writer \<Rightarrow> bool" where
  "winv dst0 s \<longleftrightarrow>
     length (dst s) = length dst0 \<and> dstp s + unat (dstSize s) = length dst0
     \<and> dstSize s \<noteq> 0 \<and> drop (dstp s) (dst s) = drop (dstp s) dst0"

definition wr_ok :: "string \<Rightarrow> nat \<Rightarrow> wr \<Rightarrow> bool" where
  "wr_ok dst0 k r =
     (case r of
        Go s \<Rightarrow> winv dst0 s \<and> k \<le> dstp s
      | Finish s \<Rightarrow> length (dst s) = length dst0 \<and> Suc (dstp s) = length dst0
          \<and> drop (dstp s) (dst s) = drop (dstp s) dst0
      | Overrun \<Rightarrow> False)"

declare pad_loop.simps [simp del] whole_copy.simps [simp del] frac_copy.simps [simp del]
  trail_loop.simps [simp del] whole_loop.simps [simp del] udiv_refine.simps [simp del]

section \<open>Properties\<close>

subsection \<open>Carries and negation\<close>

lemma uint_max_iff: "2 ^ 64 \<le> uint (y :: u64) + 1 \<longleftrightarrow> y = - 1"
proof
  assume "2 ^ 64 \<le> uint y + 1"
  moreover have "uint y < 2 ^ 64" using uint_lt2p [of y] by simp
  ultimately have "uint y = uint (- 1 :: u64)"
    by (simp add: unsigned_minus_1_eq_mask mask_eq_exp_minus_1)
  then show "y = - 1" by (simp only: word_uint_eq_iff)
next
  assume "y = - 1" then show "2 ^ 64 \<le> uint y + 1"
    by (simp add: unsigned_minus_1_eq_mask mask_eq_exp_minus_1)
qed

lemma NOT_eq_max_iff: "NOT x = (- 1 :: u64) \<longleftrightarrow> x = 0"
  by (metis bit.compl_one bit.double_compl)

lemma addcarry_not_one: "addcarry_u64 False (NOT x) 1 = (x = 0, - x)"
  using uint_max_iff [of "NOT x"]
  by (simp add: addcarry_u64_def minus_eq_not_plus_1 [symmetric] NOT_eq_max_iff)

lemma addcarry_zero: "addcarry_u64 c y 0 = (c \<and> y = - 1, if c then y + 1 else y)"
  using uint_max_iff [of y] uint_lt2p [of y]
  by (simp add: addcarry_u64_def)

lemma r128Neg_eq:
  "r128Neg v = (if lo v = 0 then \<lparr>lo = 0, hi = - hi v\<rparr> else \<lparr>lo = - lo v, hi = NOT (hi v)\<rparr>)"
  by (simp add: r128Neg_def addcarry_not_one addcarry_zero minus_eq_not_plus_1 [symmetric])

lemma r128Neg_r128Neg: "r128Neg (r128Neg v) = v"
  by (simp add: r128Neg_eq)


lemma cat_lo: "ucast (push_bit 64 (ucast h :: u128) + ucast l) = (l :: u64)"
proof -
  have "push_bit 64 (ucast h :: u128) + ucast l = word_cat h l"
    by (simp add: word_cat_eq)
  then show ?thesis
    by (simp add: bit_eq_iff bit_simps)
qed

lemma cat_hi: "ucast (drop_bit 64 (push_bit 64 (ucast h :: u128) + ucast (l :: u64))) = (h :: u64)"
proof -
  have "push_bit 64 (ucast h :: u128) + ucast l = word_cat h l"
    by (simp add: word_cat_eq)
  then show ?thesis
    by (simp add: bit_eq_iff bit_simps)
qed

lemma umul_one: "r128__umul a R128_one = a"
  by (simp add: r128__umul_def R128_one_def Let_def cat_lo cat_hi)


lemma r128Copy_id: "r128Copy v = v"
  by (simp add: r128Copy_def)

lemma one_not_neg: "\<not> r128IsNeg R128_one"
  by (simp add: r128IsNeg_def R128_one_def)


text \<open>
  C2. The unsigned comparison of the division kernels is meant to order by \<open>hi\<close>, then
  \<open>lo\<close>, and to return 0 on equal operands. The source tests \<open>a.hi == b.hi\<close> where the
  order needs \<open>a.hi != b.hi\<close>: on equal operands, whatever they are, it returns \<open>-1\<close>.
\<close>

theorem r128__ucmp_equal_operands: "r128__ucmp a a = - 1"
  by (simp add: r128__ucmp_def)

text \<open>
  C4. \<open>ceil\<close> is meant to round toward plus infinity, so every value strictly between
  0 and 1 goes to \<open>ONE\<close>. The source tests the sign of \<open>hi\<close> alone (\<open>hi > 0\<close>), which is
  false when \<open>hi = 0\<close>: the smallest positive value goes to \<open>ZERO\<close>.
\<close>

theorem r128Ceil_smallest:
  "r128Ceil R128_smallest = R128_zero \<and> R128_zero \<noteq> R128_one
   \<and> 0 < r128_value R128_smallest \<and> r128_value R128_smallest < 1"
  by (simp add: r128Ceil_def R128_smallest_def R128_zero_def R128_one_def r128_value_def)

text \<open>
  C8. \<open>to_int\<close> returns the signed \<open>hi\<close> half, which is the floor of the value, so
  \<open>from_int (to_int v)\<close> should be \<open>floor v\<close>. The source's \<open>r128Floor\<close> subtracts one
  from \<open>hi\<close> for a negative value with a fraction, although \<open>hi\<close> already is the floor:
  at \<open>-1.5\<close> (hi = \<open>-2\<close>, lo = one half) \<open>to_int\<close> gives \<open>-2\<close> and \<open>r128Floor\<close> gives \<open>-3\<close>.
\<close>

theorem r128Floor_minus_one_and_a_half:
  "r128_value \<lparr>lo = 0x8000000000000000, hi = 0xfffffffffffffffe\<rparr> = - 3 / 2
   \<and> r128ToInt \<lparr>lo = 0x8000000000000000, hi = 0xfffffffffffffffe\<rparr> = - 2
   \<and> r128FromInt (r128ToInt \<lparr>lo = 0x8000000000000000, hi = 0xfffffffffffffffe\<rparr>)
       = \<lparr>lo = 0, hi = 0xfffffffffffffffe\<rparr>
   \<and> r128Floor \<lparr>lo = 0x8000000000000000, hi = 0xfffffffffffffffe\<rparr>
       = \<lparr>lo = 0, hi = 0xfffffffffffffffd\<rparr>"
  by (simp add: r128_value_def r128ToInt_def r128FromInt_def r128Floor_def)

text \<open>
  C7. \<open>ONE\<close> is a multiplicative identity: \<open>mul(v, ONE) = v\<close> for every bit pattern \<open>v\<close>,
  \<open>MIN\<close> and \<open>MAX\<close> included.
\<close>

theorem r128Mul_one: "r128Mul v R128_one = v"
  by (simp add: r128Mul_def Let_def r128Copy_id umul_one r128Neg_r128Neg one_not_neg)

text \<open>
  C6. Division by \<open>ZERO\<close> saturates and never reaches the division kernel: the result is
  \<open>MIN\<close> for a negative dividend and \<open>MAX\<close> for any other, \<open>ZERO\<close> included.
\<close>

theorem r128Div_zero:
  "r128Div a R128_zero = Some (if r128IsNeg a then R128_min else R128_max)"
  by (simp add: r128Div_def r128Copy_id R128_zero_def Let_def split: prod.splits)

text \<open>The sign test is the sign of the value, so the same holds in terms of the value.\<close>

lemma r128IsNeg_value: "r128IsNeg a \<longleftrightarrow> r128_value a < 0"
proof -
  have b: "0 \<le> uint (lo a)" "uint (lo a) < 2 ^ 64"
    using uint_lt2p [of "lo a"] by simp_all
  have "sint (hi a) * 2 ^ 64 + uint (lo a) < 0 \<longleftrightarrow> sint (hi a) < 0"
  proof
    assume h: "sint (hi a) * 2 ^ 64 + uint (lo a) < 0"
    show "sint (hi a) < 0"
    proof (rule ccontr)
      assume "\<not> sint (hi a) < 0"
      then have "0 \<le> sint (hi a) * 2 ^ 64" by simp
      then have "0 \<le> sint (hi a) * 2 ^ 64 + uint (lo a)"
        using b(1) by (rule add_nonneg_nonneg)
      with h show False by (simp only: not_le [symmetric] not_True_eq_False)
    qed
  next
    assume "sint (hi a) < 0"
    then have "sint (hi a) \<le> - 1" by simp
    then have "sint (hi a) * 2 ^ 64 \<le> - 1 * 2 ^ 64"
      by (rule mult_right_mono) simp
    with b show "sint (hi a) * 2 ^ 64 + uint (lo a) < 0" by simp
  qed
  moreover have "r128_value a < 0 \<longleftrightarrow> sint (hi a) * 2 ^ 64 + uint (lo a) < 0"
    by (simp only: r128_value_def divide_less_0_iff of_int_less_0_iff of_int_0_less_iff) simp
  ultimately show ?thesis
    by (simp only: r128IsNeg_def)
qed

corollary r128Div_zero_value:
  "r128Div a R128_zero = Some (if r128_value a < 0 then R128_min else R128_max)"
  by (simp add: r128Div_def r128Copy_id R128_zero_def Let_def r128IsNeg_value [symmetric]
      split: prod.splits)

corollary r128Div_one_zero: "r128Div R128_one R128_zero = Some R128_max"
  by (simp add: r128Div_def r128Copy_id R128_zero_def Let_def one_not_neg split: prod.splits)

corollary r128Div_minus_one_zero: "r128Div (r128Neg R128_one) R128_zero = Some R128_min"
  by (simp add: r128Div_def r128Copy_id R128_zero_def Let_def r128Neg_eq R128_one_def
      r128IsNeg_def split: prod.splits)

subsection \<open>The division kernel at \<open>(3 + 2^-64) / (2 + 2^-63)\<close>\<close>

lemma norm_example:
  "r128__norm \<lparr>lo = 1, hi = 3\<rparr> \<lparr>lo = 2, hi = 2\<rparr> =
     Some (\<lparr>lo = 0x4000000000000000, hi = 0xC000000000000000\<rparr>,
           \<lparr>lo = 0x8000000000000000, hi = 0x8000000000000000\<rparr>, 0)"
  by code_simp

lemma trial_digit_example:
  "r128__udiv128 0xC000000000000000 0 0x8000000000000000 = Some (1, 0x4000000000000000)"
  by code_simp

lemma ucmp_example:
  "r128__ucmp (r128__umul128 1 0x8000000000000000)
     \<lparr>lo = 0x4000000000000000, hi = 0x4000000000000000\<rparr> = 1"
  by code_simp

lemma refine_example:
  "udiv_refine 1 \<lparr>lo = 0x4000000000000000, hi = 0x4000000000000000\<rparr>
     0x4000000000000000 0x8000000000000000 = 0"
  by code_simp

lemma digit_spec_example:
  "quotient_digit_spec 0 0xC000000000000000 0x4000000000000000
     0x8000000000000000 0x8000000000000000 = 1"
  by (simp add: quotient_digit_spec_def)

lemma udiv_example: "r128__udiv \<lparr>lo = 1, hi = 3\<rparr> \<lparr>lo = 2, hi = 2\<rparr> = None"
  by code_simp

text \<open>
  C3. The refinement loop is meant to leave the true quotient digit. At the dividend
  \<open>3 + 2^-64\<close> and the divisor \<open>2 + 2^-63\<close> the normalized limbs are \<open>n3 = 0\<close>,
  \<open>n2 = 0xC000000000000000\<close>, \<open>n1 = 2^62\<close>, \<open>d1 = d0 = 2^63\<close>; the trial digit is 1 with
  remainder \<open>2^62\<close>, and 1 is the true digit. \<open>r128__ucmp\<close> reports \<open>q1 * d0 = 2^63\<close> as
  greater than \<open>(r:n1)\<close>, the loop decrements the digit and adds \<open>n1\<close> (not \<open>d1\<close>) to the
  remainder, and the refined digit is 0. The next assertion, \<open>n2 < d1\<close>, then fails.
\<close>

theorem udiv_refine_wrong_digit:
  "r128__norm \<lparr>lo = 1, hi = 3\<rparr> \<lparr>lo = 2, hi = 2\<rparr> =
     Some (\<lparr>lo = 0x4000000000000000, hi = 0xC000000000000000\<rparr>,
           \<lparr>lo = 0x8000000000000000, hi = 0x8000000000000000\<rparr>, 0)
   \<and> r128__udiv128 0xC000000000000000 0 0x8000000000000000 = Some (1, 0x4000000000000000)
   \<and> r128__ucmp (r128__umul128 1 0x8000000000000000)
         \<lparr>lo = 0x4000000000000000, hi = 0x4000000000000000\<rparr> = 1
   \<and> udiv_refine 1 \<lparr>lo = 0x4000000000000000, hi = 0x4000000000000000\<rparr>
         0x4000000000000000 0x8000000000000000 = 0
   \<and> quotient_digit_spec 0 0xC000000000000000 0x4000000000000000
         0x8000000000000000 0x8000000000000000 = 1
   \<and> r128__udiv \<lparr>lo = 1, hi = 3\<rparr> \<lparr>lo = 2, hi = 2\<rparr> = None"
  by (simp only: norm_example trial_digit_example ucmp_example refine_example
      digit_spec_example udiv_example simp_thms)

theorem udiv_refine_wrong_digit_witness:
  "udiv_refine 1 \<lparr>lo = 0x4000000000000000, hi = 0x4000000000000000\<rparr>
     0x4000000000000000 0x8000000000000000
   \<noteq> of_nat (quotient_digit_spec 0 0xC000000000000000 0x4000000000000000
         0x8000000000000000 0x8000000000000000)"
  using udiv_refine_wrong_digit by simp

subsection \<open>Shifts\<close>

lemma to128_inj: "to128 a = to128 b \<Longrightarrow> a = (b :: R128)"
proof -
  assume e: "to128 a = to128 b"
  have l: "lo v = ucast (to128 v)" for v
    by (simp add: to128_def bit_eq_iff bit_simps)
  have h: "hi v = ucast (drop_bit 64 (to128 v))" for v
    by (simp add: to128_def bit_eq_iff bit_simps)
  from e have "lo a = lo b" "hi a = hi b"
    by (simp_all add: l h)
  then show ?thesis by simp
qed

lemma bit_to128: "bit (to128 v) n \<longleftrightarrow> (if n < 64 then bit (lo v) n else n < 128 \<and> bit (hi v) (n - 64))"
  by (auto simp add: to128_def bit_simps dest: bit_imp_le_length)


lemma shl_to128: "to128 (r128Shl v k) = push_bit (nat (k AND 127)) (to128 v)"
  by (rule bit_eqI)
    (auto simp add: r128Shl_def Let_def bit_to128 bit_simps ac_simps dest: bit_imp_le_length)

lemma shr_to128: "to128 (r128Shr v k) = drop_bit (nat (k AND 127)) (to128 v)"
  by (rule bit_eqI)
    (auto simp add: r128Shr_def Let_def bit_to128 bit_simps ac_simps dest: bit_imp_le_length)


lemma and_127: "(k :: int) AND 127 = k mod 128"
proof -
  have "k AND mask 7 = k mod 2 ^ 7"
    by (simp only: take_bit_eq_mask [symmetric] take_bit_eq_mod)
  then show ?thesis by (simp add: mask_eq_exp_minus_1)
qed

lemma push_eq_drop_zero:
  fixes w :: u128
  assumes j: "0 < j" "j < 128" and e: "push_bit j w = drop_bit (128 - j) w"
  shows "w = 0"
proof (rule bit_eqI)
  fix n
  assume "possible_bit TYPE(u128) n"
  then have n: "n < 128" by (simp add: possible_bit_word)
  show "bit w n = bit (0 :: u128) n"
  proof (cases "n + j < 128")
    case True
    have "bit (push_bit j w) (n + j) = bit w n"
      using True by (simp add: bit_simps)
    moreover have "\<not> bit (drop_bit (128 - j) w) (n + j)"
      using j by (auto simp add: bit_simps dest: bit_imp_le_length)
    ultimately show ?thesis using e by simp
  next
    case False
    then have m: "n = (128 - j) + (n - (128 - j))" using j by simp
    have "bit (drop_bit (128 - j) w) (n - (128 - j)) = bit w n"
      using m by (simp add: bit_simps)
    moreover have "\<not> bit (push_bit j w) (n - (128 - j))"
      using j n by (auto simp add: bit_simps)
    ultimately show ?thesis using e by simp
  qed
qed

lemma to128_zero_iff: "to128 v = 0 \<longleftrightarrow> v = R128_zero"
proof
  assume "to128 v = 0"
  moreover have "to128 R128_zero = 0" by (simp add: to128_def R128_zero_def word_cat_eq)
  ultimately show "v = R128_zero" by (simp add: to128_inj)
next
  assume "v = R128_zero" then show "to128 v = 0" by (simp add: to128_def R128_zero_def word_cat_eq)
qed

text \<open>
  C5. Both shifts reduce the amount modulo 128, so \<open>shr(v, -k)\<close> shifts right by
  \<open>128 - k\<close> when \<open>0 < k\<close>: it is not the inverse direction of \<open>shl(v, k)\<close>. For
  \<open>-127 \<le> k \<le> 127\<close> the two results agree exactly when \<open>k = 0\<close> or \<open>v = ZERO\<close>.
\<close>

theorem r128Shl_eq_r128Shr_neg_iff:
  assumes "- 127 \<le> k" and "k \<le> 127"
  shows "r128Shl v k = r128Shr v (- k) \<longleftrightarrow> k = 0 \<or> v = R128_zero"
proof (cases "k = 0")
  case True
  then show ?thesis by (simp add: r128Shl_def r128Shr_def)
next
  case False
  define j where "j = nat (k mod 128)"
  have km: "m mod 128 = (if 0 \<le> m then m else m + 128)" if "- 127 \<le> m" "m \<le> 127" for m :: int
  proof (cases "0 \<le> m")
    case True
    then show ?thesis using that by simp
  next
    case False
    have "(m + 128) mod 128 = m + 128"
      using False that by (intro mod_pos_pos_trivial) simp_all
    then show ?thesis using False by simp
  qed
  have j: "0 < j" "j < 128"
    using False assms by (auto simp add: j_def km)
  have j': "nat ((- k) mod 128) = 128 - j"
    using False assms by (auto simp add: j_def km)
  have "r128Shl v k = r128Shr v (- k) \<longleftrightarrow> to128 (r128Shl v k) = to128 (r128Shr v (- k))"
    using to128_inj by auto
  also have "\<dots> \<longleftrightarrow> push_bit j (to128 v) = drop_bit (128 - j) (to128 v)"
    by (simp add: shl_to128 shr_to128 and_127 j' j_def [symmetric])
  also have "\<dots> \<longleftrightarrow> to128 v = 0"
    using push_eq_drop_zero [OF j] by auto
  finally show ?thesis using False by (simp add: to128_zero_iff)
qed


theorem r128Shl_eq_r128Shr_neg_iff_witness:
  "(- 127 \<le> (- 3 :: int) \<and> (- 3 :: int) \<le> 127)
   \<and> r128Shl R128_zero (- 3) = r128Shr R128_zero (- (- 3))"
  using r128Shl_eq_r128Shr_neg_iff [of "- 3" R128_zero] by simp

theorem r128Shl_one_counterexample:
  "r128Shl R128_one 1 = \<lparr>lo = 0, hi = 2\<rparr> \<and> r128Shr R128_one (- 1) = \<lparr>lo = 0, hi = 0\<rparr>
   \<and> r128Shl R128_one 1 \<noteq> r128Shr R128_one (- 1)"
  by (simp add: r128Shl_def r128Shr_def R128_one_def and_127)

subsection \<open>Parser: the whole part\<close>

lemma skip_ws_stop: "\<not> is_space (peek t) \<Longrightarrow> skip_ws t = t"
  by (cases t) (simp_all add: peek_def is_space_def)

lemma skip_ws_append:
  "\<forall>c\<in>set ws. is_space c \<Longrightarrow> \<not> is_space (peek t) \<Longrightarrow> skip_ws (ws @ t) = t"
  by (induction ws) (simp_all add: skip_ws_stop is_space_def)

lemma whole_part_stop: "\<not> base_digit base (peek t) \<Longrightarrow> whole_part base h t = (h, t)"
  by (cases t) (auto simp add: peek_def base_digit_def)

lemma digit_step:
  assumes "base = 10 \<or> base = 16" and "base_digit base c"
  shows "whole_part base (of_nat a) (c # t)
       = whole_part base (of_nat (a * unat base + digit_value c)) t"
proof -
  have na: "\<not> (CHR ''a'' \<le> c \<and> c \<le> CHR ''f'')" if "CHR ''A'' \<le> c \<and> c \<le> CHR ''F''"
    using that by (auto simp add: less_eq_char_def)
  have nd: "\<not> (CHR ''0'' \<le> c \<and> c \<le> CHR ''9'')" if "CHR ''a'' \<le> c \<or> CHR ''A'' \<le> c"
    using that by (auto simp add: less_eq_char_def)
  have b: "(of_nat (unat base) :: u64) = base" by simp
  have d: "(of_nat a :: u64) * base + of_nat (digit_value c)
      = of_nat (a * unat base + digit_value c)"
    by (simp add: b)
  show ?thesis
    using assms na nd d [symmetric]
    by (auto simp add: base_digit_def digit_value_def)
qed

lemma whole_part_digits:
  assumes "base = 10 \<or> base = 16"
  shows "\<forall>c\<in>set ds. base_digit base c \<Longrightarrow> \<not> base_digit base (peek rest) \<Longrightarrow>
     whole_part base (of_nat a) (ds @ rest)
       = (of_nat (foldl (\<lambda>a c. a * unat base + digit_value c) a ds), rest)"
proof (induction ds arbitrary: a)
  case Nil
  then show ?case by (simp add: whole_part_stop)
next
  case (Cons c cs)
  then have c: "base_digit base c" and cs: "\<forall>c\<in>set cs. base_digit base c"
    by simp_all
  have "whole_part base (of_nat a) ((c # cs) @ rest)
      = whole_part base (of_nat (a * unat base + digit_value c)) (cs @ rest)"
    using digit_step [OF assms c] by simp
  also have "\<dots> = (of_nat (foldl (\<lambda>a c. a * unat base + digit_value c)
        (a * unat base + digit_value c) cs), rest)"
    using cs Cons.prems(2) by (rule Cons.IH)
  finally show ?case by simp
qed


lemma peek_Nil: "peek [] = CHR 0x00"
  by (simp add: peek_def)

lemma digit_value_lt_base:
  assumes "base = 10 \<or> base = 16" and "base_digit base c"
  shows "digit_value c < unat base"
proof -
  have na: "\<not> (CHR ''a'' \<le> c \<and> c \<le> CHR ''f'')" if "CHR ''A'' \<le> c \<and> c \<le> CHR ''F''"
    using that by (auto simp add: less_eq_char_def)
  have nd: "\<not> (CHR ''0'' \<le> c \<and> c \<le> CHR ''9'')" if "CHR ''a'' \<le> c \<or> CHR ''A'' \<le> c"
    using that by (auto simp add: less_eq_char_def)
  have "of_char c - of_char (CHR ''0'') < (10 :: nat)" if "CHR ''0'' \<le> c \<and> c \<le> CHR ''9''"
    using that by (auto simp add: less_eq_char_def)
  moreover have "of_char c - of_char (CHR ''a'') + 10 < (16 :: nat)"
    if "CHR ''a'' \<le> c \<and> c \<le> CHR ''f''"
    using that by (auto simp add: less_eq_char_def)
  moreover have "of_char c - of_char (CHR ''A'') + 10 < (16 :: nat)"
    if "CHR ''A'' \<le> c \<and> c \<le> CHR ''F''"
    using that by (auto simp add: less_eq_char_def)
  ultimately show ?thesis
    using assms na nd unfolding base_digit_def digit_value_def
    by (elim disjE conjE) auto
qed

lemma digit_lt_base:
  assumes "base = 10 \<or> base = 16" and "base_digit base c"
  shows "(of_nat (digit_value c) :: u64) < base"
proof -
  have lt: "digit_value c < unat base"
    using assms by (rule digit_value_lt_base)
  then have "unat (of_nat (digit_value c) :: u64) = digit_value c"
    by (intro le_unat_uoi [of _ base]) simp
  with lt show ?thesis
    by (simp add: word_less_nat_alt)
qed

lemma frac_digit_eq:
  "(if CHR ''0'' \<le> c \<and> c \<le> CHR ''9'' then of_nat (of_char c - of_char (CHR ''0''))
    else if CHR ''a'' \<le> c \<and> c \<le> CHR ''f''
      then of_nat (of_char c - of_char (CHR ''a'') + 10)
    else of_nat (of_char c - of_char (CHR ''A'') + 10)) = (of_nat (digit_value c) :: u64)"
  by (simp add: digit_value_def)

lemma frac_back_Some:
  assumes "base = 10 \<or> base = 16"
  shows "\<forall>c\<in>set cs. base_digit base c \<Longrightarrow> \<exists>l. frac_back base acc cs = Some l"
proof (induction cs arbitrary: acc)
  case Nil
  then show ?case by simp
next
  case (Cons c cs)
  then have c: "base_digit base c" and cs: "\<forall>c\<in>set cs. base_digit base c"
    by simp_all
  let ?digit = "if CHR ''0'' \<le> c \<and> c \<le> CHR ''9'' then of_nat (of_char c - of_char (CHR ''0''))
         else if CHR ''a'' \<le> c \<and> c \<le> CHR ''f''
           then of_nat (of_char c - of_char (CHR ''a'') + 10)
         else of_nat (of_char c - of_char (CHR ''A'') + 10) :: u64"
  have lt: "?digit < base"
    using digit_lt_base [OF assms c] by (simp only: frac_digit_eq)
  then have "\<not> (base = 0 \<or> base \<le> ?digit)"
    using assms by auto
  then obtain q r where "r128__udiv128 acc ?digit base = Some (q, r)"
    by (simp add: r128__udiv128_def Let_def)
  moreover obtain l where "frac_back base q cs = Some l"
    using Cons.IH [OF cs] by blast
  ultimately show ?case
    by (simp add: Let_def)
qed

lemma frac_scan_digits: "\<forall>c\<in>set (fst (frac_scan base t)). base_digit base c"
  by (induction t) (auto simp add: base_digit_def split: prod.splits)


lemma base_digit_not_space: "base_digit base c \<Longrightarrow> \<not> is_space c"
  by (auto simp add: base_digit_def is_space_def less_eq_char_def)

lemma base_digit_not_sign:
  "base_digit base c \<Longrightarrow> c \<noteq> CHR ''-'' \<and> c \<noteq> CHR ''+''"
  by (auto simp add: base_digit_def less_eq_char_def)

lemma dec_digit_not_x: "base_digit 10 c \<Longrightarrow> c \<noteq> CHR ''x'' \<and> c \<noteq> CHR ''X''"
  by (auto simp add: base_digit_def less_eq_char_def)

text \<open>
  C10. The whole part is accumulated in a 64-bit word by \<open>hi <- hi * base + digit\<close> with no
  overflow check. Every input with a whole part reads as blanks \<open>ws\<close>, an optional sign
  \<open>sg\<close>, an optional prefix \<open>px\<close> (\<open>0x\<close> or \<open>0X\<close>, which selects base 16), the digits
  \<open>ds\<close> of the whole part, and a rest that does not start with a digit of the base: a
  fractional part, any other text, or nothing. (When there is no prefix and the whole part is
  the single digit \<open>0\<close>, the rest must not start with \<open>x\<close> or \<open>X\<close>, which would be a prefix.)
  For every such input the parser returns, negated when the sign is \<open>-\<close>, a value whose \<open>hi\<close>
  half is the integer the digits denote reduced modulo \<open>2^64\<close>; \<open>lo\<close> is 0 when no separator
  follows, and \<open>endptr\<close> is left at the rest.
\<close>

theorem r128FromString_whole_wraps:
  assumes ws: "\<forall>c\<in>set ws. is_space c"
    and sg: "sg = [] \<or> sg = ''-'' \<or> sg = ''+''"
    and px: "(px = [] \<and> base = 10) \<or> (px = ''0x'' \<and> base = 16) \<or> (px = ''0X'' \<and> base = 16)"
    and ne: "ds \<noteq> []"
    and ds: "\<forall>c\<in>set ds. base_digit base c"
    and rest: "\<not> base_digit base (peek rest)"
    and amb: "px = [] \<and> ds = ''0'' \<longrightarrow> peek rest \<noteq> CHR ''x'' \<and> peek rest \<noteq> CHR ''X''"
  shows "\<exists>l h. r128FromString (ws @ sg @ px @ ds @ rest)
            = Some (if sg = ''-'' then r128Neg \<lparr>lo = l, hi = h\<rparr> else \<lparr>lo = l, hi = h\<rparr>, rest)
          \<and> unat h = digits_value (unat base) ds mod 2 ^ 64
          \<and> (peek rest \<noteq> R128_decimal \<longrightarrow> l = 0)"
proof -
  from px have b: "base = 10 \<or> base = 16" by auto
  from ne obtain d ds' where dd: "ds = d # ds'" by (cases ds) auto
  with ds have d: "base_digit base d" by simp
  have p3: "peek (ds @ rest) = d"
    by (simp add: dd peek_def)
  have p2: "peek (px @ ds @ rest) = d \<or> peek (px @ ds @ rest) = CHR ''0''"
    using px p3 by (auto simp add: peek_def)
  have z: "base_digit base (CHR ''0'')"
    by (simp add: base_digit_def less_eq_char_def)
  have p2d: "base_digit base (peek (px @ ds @ rest))"
    using p2 d z by auto
  have p1: "\<not> is_space (peek (sg @ px @ ds @ rest))"
    using sg base_digit_not_space [OF p2d]
    by (auto simp add: peek_def is_space_def)
  have s1: "skip_ws (ws @ sg @ px @ ds @ rest) = sg @ px @ ds @ rest"
    using ws p1 by (rule skip_ws_append)
  have s2: "(if peek (sg @ px @ ds @ rest) = CHR ''-'' then (True, tl (sg @ px @ ds @ rest))
             else if peek (sg @ px @ ds @ rest) = CHR ''+'' then (False, tl (sg @ px @ ds @ rest))
             else (False, sg @ px @ ds @ rest)) = (sg = ''-'', px @ ds @ rest)"
    using sg base_digit_not_sign [OF p2d] by (auto simp add: peek_def)
  have nx: "\<not> (peek (ds @ rest) = CHR ''0''
        \<and> (peek (tl (ds @ rest)) = CHR ''x'' \<or> peek (tl (ds @ rest)) = CHR ''X''))"
    if "px = []"
  proof (cases ds')
    case Nil
    with that amb dd show ?thesis by (auto simp add: peek_def)
  next
    case (Cons d' ds'')
    with ds dd that px have "base_digit 10 d'" by auto
    from dec_digit_not_x [OF this] Cons dd show ?thesis by (simp add: peek_def)
  qed
  have s3: "(if peek (px @ ds @ rest) = CHR ''0''
                \<and> (peek (tl (px @ ds @ rest)) = CHR ''x'' \<or> peek (tl (px @ ds @ rest)) = CHR ''X'')
             then (16, tl (tl (px @ ds @ rest))) else (10, px @ ds @ rest)) = (base, ds @ rest)"
    using px nx by (auto simp add: peek_def)
  have s4: "whole_part base 0 (ds @ rest) = (of_nat (digits_value (unat base) ds), rest)"
    using whole_part_digits [OF b ds rest, of 0] by (simp add: digits_value_def)
  obtain run rest' where fs: "frac_scan base (tl rest) = (run, rest')"
    by (rule prod.exhaust)
  have "\<forall>c\<in>set (rev run). base_digit base c"
    using frac_scan_digits [of base "tl rest"] fs by simp
  from frac_back_Some [OF b this] obtain l where fb: "frac_back base 0 (rev run) = Some l"
    by blast
  let ?h = "of_nat (digits_value (unat base) ds) :: u64"
  have u: "unat ?h = digits_value (unat base) ds mod 2 ^ 64"
    by (simp add: unat_of_nat)
  have r: "r128FromString (ws @ sg @ px @ ds @ rest)
      = Some (if sg = ''-''
              then r128Neg \<lparr>lo = (if peek rest = R128_decimal then l else 0), hi = ?h\<rparr>
              else \<lparr>lo = (if peek rest = R128_decimal then l else 0), hi = ?h\<rparr>, rest)"
    unfolding r128FromString_def Let_def s1 s2 s3 s4 prod.case
    by (simp add: fs fb R128_SET2_def)
  let ?l = "if peek rest = R128_decimal then l else 0"
  have "r128FromString (ws @ sg @ px @ ds @ rest)
            = Some (if sg = ''-'' then r128Neg \<lparr>lo = ?l, hi = ?h\<rparr> else \<lparr>lo = ?l, hi = ?h\<rparr>, rest)
          \<and> unat ?h = digits_value (unat base) ds mod 2 ^ 64
          \<and> (peek rest \<noteq> R128_decimal \<longrightarrow> ?l = 0)"
    using r u by simp
  then show ?thesis by blast
qed

lemma dec_example: "digits_value (unat (10 :: u64)) ''18446744073709551616'' mod 2 ^ 64 = 0"
  by (simp add: digits_value_def digit_value_def)

lemma hex_example: "digits_value (unat (16 :: u64)) ''10000000000000001'' mod 2 ^ 64 = 1"
  by (simp add: digits_value_def digit_value_def)

theorem r128FromString_whole_wraps_witness:
  "r128FromString ''18446744073709551616'' = Some (R128_zero, [])
   \<and> (\<exists>l. r128FromString '' -0X10000000000000001.8 z''
          = Some (r128Neg \<lparr>lo = l, hi = 1\<rparr>, ''.8 z''))"
proof -
  have e: "\<forall>c\<in>set ([] :: string). is_space c" by simp
  have d: "\<forall>c\<in>set ''18446744073709551616''. base_digit 10 c"
    by (simp add: base_digit_def less_eq_char_def)
  have n: "\<not> base_digit 10 (peek [])"
    by (simp add: base_digit_def peek_def less_eq_char_def)
  have a: "[] = [] \<and> ''18446744073709551616'' = ''0''
      \<longrightarrow> peek [] \<noteq> CHR ''x'' \<and> peek [] \<noteq> CHR ''X''"
    by simp
  have z: "h = 0" if "unat h = 0" for h :: u64
    using that by (simp add: unat_0_iff)
  from r128FromString_whole_wraps [of "[]" "[]" "[]" 10 "''18446744073709551616''" "[]",
      OF e _ _ _ d n a]
  have first: "r128FromString ''18446744073709551616'' = Some (R128_zero, [])"
    unfolding dec_example
    by (auto simp add: R128_zero_def peek_def R128_decimal_def dest: z)
  have s: "\<forall>c\<in>set '' ''. is_space c" by (simp add: is_space_def)
  have h: "\<forall>c\<in>set ''10000000000000001''. base_digit 16 c"
    by (simp add: base_digit_def less_eq_char_def)
  have m: "\<not> base_digit 16 (peek ''.8 z'')"
    by (simp add: base_digit_def peek_def less_eq_char_def)
  have a': "''0X'' = [] \<and> ''10000000000000001'' = ''0''
      \<longrightarrow> peek ''.8 z'' \<noteq> CHR ''x'' \<and> peek ''.8 z'' \<noteq> CHR ''X''"
    by simp
  have o: "h = 1" if "unat h = 1" for h :: u64
    using that by (metis unat_1 word_unat_eq_iff)
  from r128FromString_whole_wraps [of "'' ''" "''-''" "''0X''" 16 "''10000000000000001''"
      "''.8 z''", OF s _ _ _ h m a']
  obtain l h where p: "r128FromString ('' '' @ ''-'' @ ''0X'' @ ''10000000000000001'' @ ''.8 z'')
        = Some (r128Neg \<lparr>lo = l, hi = h\<rparr>, ''.8 z'')"
    and "unat h = digits_value (unat (16 :: u64)) ''10000000000000001'' mod 2 ^ 64"
    by auto
  then have "unat h = 1" by (simp only: hex_example)
  then have "h = 1" by (rule o)
  with p have second: "\<exists>l. r128FromString '' -0X10000000000000001.8 z''
          = Some (r128Neg \<lparr>lo = l, hi = 1\<rparr>, ''.8 z'')"
    by auto
  from first second show ?thesis by (rule conjI)
qed

text \<open>The second input of the witness above, evaluated.\<close>

lemma r128FromString_example:
  "r128FromString '' -0X10000000000000001.8 z''
     = Some (\<lparr>lo = 0x8000000000000000, hi = 0xfffffffffffffffe\<rparr>, ''.8 z'')"
  by code_simp

subsection \<open>Formatter: the writes stay inside the destination\<close>

lemma drop_Suc_eq: "drop p xs = drop p ys \<Longrightarrow> drop (Suc p) xs = drop (Suc p) ys"
  by (metis drop_Suc tl_drop)

lemma WRITE_ok:
  assumes "winv d s"
  shows "wr_ok d (Suc (dstp s)) (R128__WRITE c s)"
proof (cases "dstSize s = 1")
  case True
  with assms show ?thesis
    by (simp add: R128__WRITE_def wr_ok_def winv_def)
next
  case False
  from assms have nz: "dstSize s \<noteq> 0" and sum: "dstp s + unat (dstSize s) = length d"
    and len: "length (dst s) = length d" and dr: "drop (dstp s) (dst s) = drop (dstp s) d"
    by (simp_all add: winv_def)
  have pos: "0 < unat (dstSize s)"
    using nz by (simp add: unat_gt_0)
  have m: "unat (dstSize s - 1) = unat (dstSize s) - 1"
    using nz by (rule unat_minus_one)
  have nz': "dstSize s - 1 \<noteq> 0"
    using False by simp
  have lt: "dstp s < length (dst s)"
    using pos sum len by simp
  have dr': "drop (Suc (dstp s)) ((dst s)[dstp s := c]) = drop (Suc (dstp s)) d"
    using drop_Suc_eq [OF dr] by simp
  have r: "R128__WRITE c s =
      Go (s\<lparr>dstSize := dstSize s - 1, dst := (dst s)[dstp s := c], dstp := dstp s + 1\<rparr>)"
    using False lt by (simp add: R128__WRITE_def)
  have sum': "Suc (dstp s) + (unat (dstSize s) - 1) = length d"
    using pos sum by arith
  show ?thesis
    unfolding r wr_ok_def winv_def
    using sum' False by (simp add: len m nz' dr')
qed

lemma wr_ok_mono: "wr_ok d k r \<Longrightarrow> k' \<le> k \<Longrightarrow> wr_ok d k' r"
  by (auto simp add: wr_ok_def split: wr.splits)

lemma then_ok:
  assumes "wr_ok d k r" and "\<And>s. winv d s \<Longrightarrow> k \<le> dstp s \<Longrightarrow> wr_ok d k' (f s)"
  shows "wr_ok d k' (then_wr r f)"
  using assms by (cases r) (simp_all add: then_wr_def wr_ok_def)

lemma Go_ok: "winv d s \<Longrightarrow> wr_ok d (dstp s) (Go s)"
  by (simp add: wr_ok_def)

lemma winv_padCnt: "winv d (s\<lparr>padCnt := n\<rparr>) = winv d s"
  by (simp add: winv_def)




lemma pad_loop_ok: "winv d s \<Longrightarrow> wr_ok d (dstp s) (pad_loop c s)"
proof (induction c s rule: pad_loop.induct)
  case (1 padChar s)
  show ?case
  proof (cases "0 < padCnt s")
    case False
    then show ?thesis using 1(2) by (subst pad_loop.simps) (simp add: wr_ok_def)
  next
    case True
    have w: "wr_ok d (Suc (dstp s)) (R128__WRITE padChar s)"
      using 1(2) by (rule WRITE_ok)
    show ?thesis
    proof (cases "R128__WRITE padChar s")
      case (Go s')
      with w have i: "winv d s'" and le: "Suc (dstp s) \<le> dstp s'"
        by (simp_all add: wr_ok_def)
      have i': "winv d (s'\<lparr>padCnt := padCnt s' - 1\<rparr>)"
        using i by (simp add: winv_def)
      have "wr_ok d (dstp (s'\<lparr>padCnt := padCnt s' - 1\<rparr>))
              (pad_loop padChar (s'\<lparr>padCnt := padCnt s' - 1\<rparr>))"
        using True Go i' by (rule 1(1))
      then have "wr_ok d (dstp s) (pad_loop padChar (s'\<lparr>padCnt := padCnt s' - 1\<rparr>))"
        by (rule wr_ok_mono) (use le in simp)
      then show ?thesis using True Go by (subst pad_loop.simps) simp
    next
      case (Finish s')
      with w True show ?thesis by (subst pad_loop.simps) (simp add: wr_ok_def)
    next
      case Overrun
      with w show ?thesis by (simp add: wr_ok_def)
    qed
  qed
qed


lemma WRITE_ok': "winv d s \<Longrightarrow> wr_ok d (dstp s) (R128__WRITE c s)"
  by (rule wr_ok_mono [OF WRITE_ok]) simp_all

lemma write_sign_ok:
  assumes "winv d s"
  shows "wr_ok d (dstp s) (write_sign b f s)"
proof -
  have "wr_ok d (dstp s) (Go (s\<lparr>padCnt := padCnt s + 1\<rparr>))"
    using assms by (simp add: wr_ok_def winv_def)
  then show ?thesis
    by (simp add: write_sign_def WRITE_ok' [OF assms])
qed

lemma whole_copy_ok:
  "winv d s \<Longrightarrow> wr_ok d (dstp s + nat (i - dec + 1)) (whole_copy buf i dec s)"
proof (induction buf i dec s rule: whole_copy.induct)
  case (1 buf i dec s)
  show ?case
  proof (cases "dec \<le> i")
    case False
    then show ?thesis using 1(2) by (subst whole_copy.simps) (simp add: wr_ok_def)
  next
    case True
    have w: "wr_ok d (Suc (dstp s)) (R128__WRITE (buf ! nat i) s)"
      using 1(2) by (rule WRITE_ok)
    show ?thesis
    proof (cases "R128__WRITE (buf ! nat i) s")
      case (Go s')
      with w have i: "winv d s'" and le: "Suc (dstp s) \<le> dstp s'"
        by (simp_all add: wr_ok_def)
      have "wr_ok d (dstp s' + nat (i - 1 - dec + 1)) (whole_copy buf (i - 1) dec s')"
        using True Go i by (rule 1(1))
      then have "wr_ok d (dstp s + nat (i - dec + 1)) (whole_copy buf (i - 1) dec s')"
        by (rule wr_ok_mono) (use le True in simp)
      then show ?thesis using True Go by (subst whole_copy.simps) simp
    next
      case (Finish s')
      with w True show ?thesis by (subst whole_copy.simps) (simp add: wr_ok_def)
    next
      case Overrun
      with w show ?thesis by (simp add: wr_ok_def)
    qed
  qed
qed

lemma frac_copy_ok:
  "winv d s \<Longrightarrow> wr_ok d (dstp s + nat (dec - i)) (frac_copy buf i dec s)"
proof (induction buf i dec s rule: frac_copy.induct)
  case (1 buf i dec s)
  show ?case
  proof (cases "i < dec")
    case False
    then show ?thesis using 1(2) by (subst frac_copy.simps) (simp add: wr_ok_def)
  next
    case True
    have w: "wr_ok d (Suc (dstp s)) (R128__WRITE (buf ! nat i) s)"
      using 1(2) by (rule WRITE_ok)
    show ?thesis
    proof (cases "R128__WRITE (buf ! nat i) s")
      case (Go s')
      with w have i: "winv d s'" and le: "Suc (dstp s) \<le> dstp s'"
        by (simp_all add: wr_ok_def)
      have "wr_ok d (dstp s' + nat (dec - (i + 1))) (frac_copy buf (i + 1) dec s')"
        using True Go i by (rule 1(1))
      then have "wr_ok d (dstp s + nat (dec - i)) (frac_copy buf (i + 1) dec s')"
        by (rule wr_ok_mono) (use le True in simp)
      then show ?thesis using True Go by (subst frac_copy.simps) simp
    next
      case (Finish s')
      with w True show ?thesis by (subst frac_copy.simps) (simp add: wr_ok_def)
    next
      case Overrun
      with w show ?thesis by (simp add: wr_ok_def)
    qed
  qed
qed

lemma trail_loop_ok: "winv d s \<Longrightarrow> wr_ok d (dstp s + n) (trail_loop n s)"
proof (induction n arbitrary: s)
  case 0
  then show ?case by (subst trail_loop.simps) (simp add: wr_ok_def)
next
  case (Suc n)
  have w: "wr_ok d (Suc (dstp s)) (R128__WRITE (CHR ''0'') s)"
    using Suc.prems by (rule WRITE_ok)
  show ?case
  proof (cases "R128__WRITE (CHR ''0'') s")
    case (Go s')
    with w have i: "winv d s'" and le: "Suc (dstp s) \<le> dstp s'"
      by (simp_all add: wr_ok_def)
    have "wr_ok d (dstp s' + n) (trail_loop n s')"
      using i by (rule Suc.IH)
    then have "wr_ok d (dstp s + Suc n) (trail_loop n s')"
      by (rule wr_ok_mono) (use le in simp)
    then show ?thesis using Go by (subst trail_loop.simps) simp
  next
    case (Finish s')
    with w show ?thesis by (subst trail_loop.simps) (simp add: wr_ok_def)
  next
    case Overrun
    with w show ?thesis by (simp add: wr_ok_def)
  qed
qed


lemma then_ok':
  assumes "wr_ok d k r" and "\<And>s. winv d s \<Longrightarrow> wr_ok d (dstp s + n) (f s)"
  shows "wr_ok d (k + n) (then_wr r f)"
proof (rule then_ok [OF assms(1)])
  fix s assume "winv d s" and "k \<le> dstp s"
  then show "wr_ok d (k + n) (f s)"
    using assms(2) [of s] by (rule_tac wr_ok_mono [of d "dstp s + n"]) simp_all
qed

lemma emit_ok:
  assumes "winv d s0"
  shows "wr_ok d (dstp s0 + nat (int (length buf) - decimal') + nat decimal' + trail)
           (emit sign' format buf decimal' trail s0)"
proof -
  let ?pc = "if zeroPad format \<noteq> 0 then CHR ''0'' else CHR '' ''"
  have a: "wr_ok d (dstp s0) (if zeroPad format \<noteq> 0 then write_sign sign' format s0 else Go s0)"
    using assms by (simp add: write_sign_ok Go_ok)
  have "wr_ok d (dstp s0 + 0)
      (then_wr (if zeroPad format \<noteq> 0 then write_sign sign' format s0 else Go s0) (pad_loop ?pc))"
    using a by (rule then_ok') (simp add: pad_loop_ok)
  then have r1: "wr_ok d (dstp s0)
      (if leftAlign format = 0 then
         then_wr (if zeroPad format \<noteq> 0 then write_sign sign' format s0 else Go s0) (pad_loop ?pc)
       else Go s0)"
    using assms by (simp add: Go_ok)
  let ?r1 = "if leftAlign format = 0 then
         then_wr (if zeroPad format \<noteq> 0 then write_sign sign' format s0 else Go s0) (pad_loop ?pc)
       else Go s0"
  let ?r2 = "then_wr ?r1
      (\<lambda>s. if leftAlign format \<noteq> 0 \<or> zeroPad format = 0 then write_sign sign' format s
           else Go s)"
  let ?r3 = "then_wr ?r2 (whole_copy buf (int (length buf) - 1) decimal')"
  let ?r4 = "then_wr ?r3 (frac_copy buf 0 decimal')"
  let ?r5 = "then_wr ?r4 (\<lambda>s. if leftAlign format \<noteq> 0 then pad_loop ?pc s else Go s)"
  let ?W = "nat (int (length buf) - decimal')"
  have r2: "wr_ok d (dstp s0 + 0) ?r2"
    using r1 by (rule then_ok') (simp add: write_sign_ok Go_ok)
  have r3: "wr_ok d (dstp s0 + 0 + ?W) ?r3"
    using r2
  proof (rule then_ok')
    fix s assume "winv d s"
    then show "wr_ok d (dstp s + ?W) (whole_copy buf (int (length buf) - 1) decimal' s)"
      using whole_copy_ok [of d s "int (length buf) - 1" decimal' buf] by simp
  qed
  have r4: "wr_ok d (dstp s0 + 0 + ?W + nat decimal') ?r4"
    using r3
  proof (rule then_ok')
    fix s assume "winv d s"
    then show "wr_ok d (dstp s + nat decimal') (frac_copy buf 0 decimal' s)"
      using frac_copy_ok [of d s decimal' 0 buf] by simp
  qed
  have r5: "wr_ok d (dstp s0 + 0 + ?W + nat decimal' + 0) ?r5"
    using r4 by (rule then_ok') (simp add: pad_loop_ok Go_ok)
  have r6: "wr_ok d (dstp s0 + 0 + ?W + nat decimal' + 0 + trail) (then_wr ?r5 (trail_loop trail))"
    using r5 by (rule then_ok') (rule trail_loop_ok)
  have e: "emit sign' format buf decimal' trail s0 = then_wr ?r5 (trail_loop trail)"
    by (rule emit_def)
  have k: "dstp s0 + 0 + ?W + nat decimal' + 0 + trail
      = dstp s0 + nat (int (length buf) - decimal') + nat decimal' + trail"
    by (simp only: add_0_right)
  show ?thesis
    using r6 by (simp only: e k)
qed

lemma frac_loop_Some:
  "int (length buf) \<le> p \<Longrightarrow> \<exists>r. frac_loop l buf w fp p = Some r"
proof (induction "nat (p - int (length buf))" arbitrary: l buf)
  case 0
  then have "int (length buf) = p" by simp
  then show ?case
    by (subst frac_loop.simps) (simp split: prod.splits bool.splits)
next
  case (Suc n)
  then have ne: "int (length buf) \<noteq> p" by simp
  let ?tmp = "r128__umul128 l 10"
  let ?buf = "buf @ [char_of (unat (hi ?tmp) + of_char (CHR ''0''))]"
  have "\<exists>r. frac_loop (lo ?tmp) ?buf w fp p = Some r"
    using Suc by (intro Suc(1)) simp_all
  then show ?case
    using ne by (subst frac_loop.simps) (simp add: Let_def)
qed

lemma frac_loop_None: "frac_loop l [] w fp p = None \<Longrightarrow> p < 0"
proof (rule ccontr)
  assume n: "frac_loop l [] w fp p = None" and "\<not> p < 0"
  then have "int (length ([] :: string)) \<le> p" by simp
  from frac_loop_Some [OF this, of l w fp] n show False by simp
qed

lemma format_digits_Some: "\<exists>r. format_digits v format = Some r"
proof -
  obtain tmp sign' where ts:
    "(if r128IsNeg (r128Copy v) then (r128Neg (r128Copy v), True) else (r128Copy v, False))
       = (tmp, sign')"
    by (rule prod.exhaust)
  obtain fp p t where pp:
    "(if precision format < 0 then (False, 20, 0)
      else if 107 < precision format then (True, 107, nat (precision format - 107))
      else (True, precision format, 0)) = (fp, p, t)"
    by (rule prod_cases3)
  have p: "0 \<le> p"
    using pp by (auto split: if_splits)
  obtain buf w where fl: "frac_loop (lo tmp) [] (hi tmp) fp p = Some (buf, w)"
    using frac_loop_Some [of "[]" p "lo tmp" "hi tmp" fp] p by auto
  show ?thesis
    by (simp add: format_digits_def Let_def ts pp fl)
qed

lemma finish_ok:
  assumes "wr_ok d k r"
  shows "\<exists>dst_out n.
     (case r of Go s \<Rightarrow> finish s | Finish s \<Rightarrow> finish s | Overrun \<Rightarrow> None)
       = Some (dst_out, sint (word_of_nat n :: 32 word))
     \<and> n < length d \<and> (k \<le> n \<or> Suc n = length d) \<and> length dst_out = length d
     \<and> dst_out ! n = CHR 0x00 \<and> drop (Suc n) dst_out = drop (Suc n) d"
proof (cases r)
  case (Go s)
  with assms have i: "winv d s" and k: "k \<le> dstp s"
    by (simp_all add: wr_ok_def)
  from i have len: "length (dst s) = length d" and sum: "dstp s + unat (dstSize s) = length d"
    and nz: "dstSize s \<noteq> 0" and dr: "drop (dstp s) (dst s) = drop (dstp s) d"
    by (simp_all add: winv_def)
  have "0 < unat (dstSize s)"
    using nz by (simp add: unat_gt_0)
  with sum have lt: "dstp s < length d" by simp
  have "drop (Suc (dstp s)) ((dst s)[dstp s := CHR 0x00]) = drop (Suc (dstp s)) d"
    using drop_Suc_eq [OF dr] by simp
  with lt len k Go show ?thesis
    by (intro exI [of _ "(dst s)[dstp s := CHR 0x00]"] exI [of _ "dstp s"])
      (simp add: finish_def)
next
  case (Finish s)
  with assms have len: "length (dst s) = length d" and e: "Suc (dstp s) = length d"
    and dr: "drop (dstp s) (dst s) = drop (dstp s) d"
    by (simp_all add: wr_ok_def)
  have lt: "dstp s < length d" using e by simp
  have "drop (Suc (dstp s)) ((dst s)[dstp s := CHR 0x00]) = drop (Suc (dstp s)) d"
    using drop_Suc_eq [OF dr] by simp
  with lt len e Finish show ?thesis
    by (intro exI [of _ "(dst s)[dstp s := CHR 0x00]"] exI [of _ "dstp s"])
      (simp add: finish_def)
next
  case Overrun
  with assms show ?thesis by (simp add: wr_ok_def)
qed

lemma format_count:
  assumes len: "length dst_in = unat dstSize_in" and nz: "dstSize_in \<noteq> 0"
    and fd: "format_digits v format = Some (sign', buf, decimal', trail, width')"
  shows "\<exists>dst_out n.
     r128__format dst_in dstSize_in v format = Some (dst_out, sint (word_of_nat n :: 32 word))
     \<and> n < length dst_in
     \<and> (nat (int (length buf) - decimal') + nat decimal' + trail \<le> n \<or> Suc n = length dst_in)
     \<and> length dst_out = length dst_in
     \<and> dst_out ! n = CHR 0x00 \<and> drop (Suc n) dst_out = drop (Suc n) dst_in"
proof -
  let ?s0 = "\<lparr>dstSize = dstSize_in, dstp = 0, dst = dst_in,
              padCnt = width' - int (length buf) - 1\<rparr>"
  have "winv dst_in ?s0"
    using len nz by (simp add: winv_def)
  from emit_ok [OF this, of buf decimal' trail sign' format]
  have "wr_ok dst_in (nat (int (length buf) - decimal') + nat decimal' + trail)
          (emit sign' format buf decimal' trail ?s0)"
    by simp
  from finish_ok [OF this] have "\<exists>dst_out n.
     (case emit sign' format buf decimal' trail ?s0 of
        Go s \<Rightarrow> finish s | Finish s \<Rightarrow> finish s | Overrun \<Rightarrow> None)
       = Some (dst_out, sint (word_of_nat n :: 32 word))
     \<and> n < length dst_in
     \<and> (nat (int (length buf) - decimal') + nat decimal' + trail \<le> n \<or> Suc n = length dst_in)
     \<and> length dst_out = length dst_in
     \<and> dst_out ! n = CHR 0x00 \<and> drop (Suc n) dst_out = drop (Suc n) dst_in" .
  moreover have "r128__format dst_in dstSize_in v format =
     (case emit sign' format buf decimal' trail ?s0 of
        Go s \<Rightarrow> finish s | Finish s \<Rightarrow> finish s | Overrun \<Rightarrow> None)"
    using nz by (simp add: r128__format_def fd Let_def word_greater_zero_iff)
  ultimately show ?thesis by simp
qed

lemma sint_of_nat_32: "n < 2 ^ 31 \<Longrightarrow> sint (word_of_nat n :: 32 word) = int n"
proof -
  assume "n < 2 ^ 31"
  then have "int n < 2 ^ 31" by (metis of_nat_less_iff of_nat_numeral of_nat_power)
  then have "signed_take_bit 31 (int n) = int n"
    by (simp add: signed_take_bit_int_eq_self)
  then show ?thesis
    by (simp add: signed_of_nat)
qed

lemma carry_loop_length: "length (fst (carry_loop buf c)) = length buf"
  by (induction c arbitrary: buf) (simp_all add: Let_def)

lemma frac_loop_length:
  assumes "fp" and "0 < p"
  shows "int (length buf) \<le> p \<Longrightarrow> frac_loop l buf w fp p = Some (b, w') \<Longrightarrow> int (length b) = p"
proof (induction "nat (p - int (length buf))" arbitrary: l buf)
  case 0
  then have e: "int (length buf) = p" by simp
  have "length (fst (carry_loop buf (length buf))) = length buf"
    by (rule carry_loop_length)
  then show ?case
    using 0(3) e assms
    by (subst (asm) frac_loop.simps) (auto split: prod.splits bool.splits if_splits)
next
  case (Suc n)
  then have ne: "int (length buf) \<noteq> p" by simp
  let ?tmp = "r128__umul128 l 10"
  let ?buf = "buf @ [char_of (unat (hi ?tmp) + of_char (CHR ''0''))]"
  have r: "frac_loop (lo ?tmp) ?buf w fp p = Some (b, w')"
    using Suc(4) ne assms by (subst (asm) frac_loop.simps) (simp add: Let_def)
  show ?case
    using Suc(2,3) ne by (intro Suc(1) [OF _ _ r]) simp_all
qed

lemma whole_loop_length: "length buf < length (whole_loop w buf)"
proof (induction w buf rule: whole_loop.induct)
  case (1 whole buf)
  show ?case
  proof (cases "whole div 10 = 0")
    case True
    then show ?thesis by (subst whole_loop.simps) (simp add: Let_def)
  next
    case False
    from 1 [OF refl refl refl False]
    have "length (buf @ [char_of (unat (whole mod 10) + of_char (CHR ''0''))])
        < length (whole_loop (whole div 10)
            (buf @ [char_of (unat (whole mod 10) + of_char (CHR ''0''))]))" .
    then show ?thesis using False by (subst whole_loop.simps) (simp add: Let_def)
  qed
qed

lemma sint_of_nat_32_wrap: "sint (word_of_nat 2147483649 :: 32 word) = - 2147483647"
  by simp

lemma format_digits_large_precision:
  "\<exists>buf. format_digits R128_smallest
        \<lparr>sign = R128ToStringSign_Default, width = 0, precision = 2147483647,
         zeroPad = 0, decimal = 0, leftAlign = 0\<rparr>
      = Some (False, buf, 107, 2147483540, 0) \<and> 109 \<le> length buf"
proof -
  obtain b w where fl: "frac_loop 1 [] 0 True 107 = Some (b, w)"
    using frac_loop_Some [of "[]" 107 1 0 True] by auto
  have lb: "int (length b) = 107"
    using frac_loop_length [OF _ _ _ fl] by simp
  have "format_digits R128_smallest
        \<lparr>sign = R128ToStringSign_Default, width = 0, precision = 2147483647,
         zeroPad = 0, decimal = 0, leftAlign = 0\<rparr>
      = Some (False, whole_loop w (b @ [R128_decimal]), 107, 2147483540, 0)"
    by (simp add: format_digits_def Let_def R128_smallest_def r128Copy_def r128IsNeg_def fl lb)
  moreover have "109 \<le> length (whole_loop w (b @ [R128_decimal]))"
    using whole_loop_length [of "b @ [R128_decimal]" w] lb by simp
  ultimately show ?thesis by blast
qed


text \<open>
  For a destination of \<open>dstSize \<ge> 1\<close> bytes the formatter returns normally, whatever
  the value and the format. It stores a terminator at an index \<open>n < dstSize\<close> and leaves every
  byte after it as it was, so it writes at most \<open>dstSize\<close> bytes and the terminator is the
  last of them. The returned \<^verbatim>\<open>int\<close> is \<open>n\<close> converted to 32 bits, which is \<open>n\<close> itself
  when \<open>n < 2^31\<close>.
\<close>

theorem r128__format_terminated:
  assumes "length dst_in = unat dstSize_in" and "1 \<le> unat dstSize_in"
  shows "\<exists>dst_out n.
     r128__format dst_in dstSize_in v format = Some (dst_out, sint (word_of_nat n :: 32 word))
     \<and> n < unat dstSize_in \<and> length dst_out = length dst_in
     \<and> dst_out ! n = CHR 0x00 \<and> drop (Suc n) dst_out = drop (Suc n) dst_in
     \<and> (n < 2 ^ 31 \<longrightarrow> sint (word_of_nat n :: 32 word) = int n)"
proof -
  from assms(2) have nz: "dstSize_in \<noteq> 0" by auto
  obtain sign' buf decimal' trail width' where
    "format_digits v format = Some (sign', buf, decimal', trail, width')"
    using format_digits_Some [of v format] by (metis prod_cases5)
  from format_count [OF assms(1) nz this] show ?thesis
    using assms(1) sint_of_nat_32 by auto
qed

theorem r128__format_terminated_witness:
  "length (replicate 5 (CHR ''#'')) = unat (5 :: u64) \<and> 1 \<le> unat (5 :: u64)
   \<and> (\<exists>dst_out n.
     r128__format (replicate 5 (CHR ''#'')) 5 R128_min R128__defaultFormat
       = Some (dst_out, sint (word_of_nat n :: 32 word))
     \<and> n < unat (5 :: u64) \<and> length dst_out = length (replicate 5 (CHR ''#''))
     \<and> dst_out ! n = CHR 0x00
     \<and> drop (Suc n) dst_out = drop (Suc n) (replicate 5 (CHR ''#''))
     \<and> (n < 2 ^ 31 \<longrightarrow> sint (word_of_nat n :: 32 word) = int n))"
proof -
  have l: "length (replicate 5 (CHR ''#'')) = unat (5 :: u64)" by simp
  have p: "1 \<le> unat (5 :: u64)" by simp
  from l p r128__format_terminated [OF l p, of R128_min R128__defaultFormat]
  show ?thesis by (intro conjI)
qed

lemma r128__format_truncated_example:
  "r128__format (replicate 5 (CHR ''#'')) 5 R128_min R128__defaultFormat
     = Some (''-922'' @ [CHR 0x00], 4)"
  by code_simp

text \<open>
  C9. The formatter is meant to return the number of characters written before the
  terminator (the header: "Returns the number of characters written, not including the
  final null terminator"). It returns the pointer difference \<open>dstp - dst\<close> through a cast to
  \<^verbatim>\<open>int\<close>. With a precision of \<open>2147483647\<close> the value \<open>2^-64\<close> takes \<open>2147483649\<close>
  characters; in a destination of \<open>2147483650\<close> bytes the terminator is stored at index
  \<open>2147483649\<close>, after all of them, and the returned value is \<open>-2147483647\<close>.
\<close>

theorem r128__format_count_overflow:
  "map_option snd
     (r128__format (replicate 2147483650 (CHR ''#'')) 2147483650 R128_smallest
        \<lparr>sign = R128ToStringSign_Default, width = 0, precision = 2147483647,
         zeroPad = 0, decimal = 0, leftAlign = 0\<rparr>)
   = Some (- 2147483647)
   \<and> map_option (\<lambda>(dst_out, ret). dst_out ! 2147483649)
     (r128__format (replicate 2147483650 (CHR ''#'')) 2147483650 R128_smallest
        \<lparr>sign = R128ToStringSign_Default, width = 0, precision = 2147483647,
         zeroPad = 0, decimal = 0, leftAlign = 0\<rparr>)
   = Some (CHR 0x00)"
proof -
  let ?f = "\<lparr>sign = R128ToStringSign_Default, width = 0, precision = 2147483647,
         zeroPad = 0, decimal = 0, leftAlign = 0\<rparr>"
  let ?d = "replicate 2147483650 (CHR ''#'')"
  obtain buf where fd: "format_digits R128_smallest ?f = Some (False, buf, 107, 2147483540, 0)"
    and lb: "109 \<le> length buf"
    using format_digits_large_precision by blast
  have len: "length ?d = unat (2147483650 :: u64)"
    by (simp only: length_replicate) simp
  have nz: "(2147483650 :: u64) \<noteq> 0" by simp
  from format_count [OF len nz fd] obtain dst_out n where
    r: "r128__format ?d 2147483650 R128_smallest ?f = Some (dst_out, sint (word_of_nat n :: 32 word))"
    and lt: "n < length ?d"
    and ge: "nat (int (length buf) - 107) + nat 107 + 2147483540 \<le> n \<or> Suc n = length ?d"
    and z: "dst_out ! n = CHR 0x00"
    by blast
  from lt have u: "n < 2147483650" by (simp only: length_replicate)
  from ge have "nat (int (length buf) - 107) + nat 107 + 2147483540 \<le> n \<or> Suc n = 2147483650"
    by (simp only: length_replicate)
  with lb have "2147483649 \<le> n" by arith
  with u have n: "n = 2147483649" by arith
  with r have "r128__format ?d 2147483650 R128_smallest ?f = Some (dst_out, - 2147483647)"
    by (simp only: sint_of_nat_32_wrap)
  moreover from z n have "dst_out ! 2147483649 = CHR 0x00" by (simp only:)
  ultimately show ?thesis
    by (simp only: option.map snd_conv prod.case simp_thms)
qed

subsection \<open>Formatting and parsing the smallest positive value\<close>

lemma r128ToString_smallest:
  "r128ToString (replicate 43 (CHR ''#'')) 43 R128_smallest
     = Some (''0.00000000000000000005'' @ CHR 0x00 # replicate 20 (CHR ''#''), 22)"
  by code_simp

lemma c_string_smallest:
  "c_string (''0.00000000000000000005'' @ CHR 0x00 # replicate 20 (CHR ''#''))
     = ''0.00000000000000000005''"
  by code_simp

lemma r128FromString_smallest:
  "r128FromString ''0.00000000000000000005'' = Some (R128_zero, ''.00000000000000000005'')"
  by code_simp

text \<open>
  C1. Parsing the default output is meant to give the value back. The default format
  writes 20 fractional digits and rounds on the next bit of the remainder; the parser
  truncates. For \<open>2^-64\<close> the output is \<open>0.00000000000000000005\<close> (the expansion goes on
  with \<open>42...\<close>, rounded down), and parsing it gives \<open>ZERO\<close>.
\<close>

theorem r128ToString_r128FromString_smallest:
  "r128ToString (replicate 43 (CHR ''#'')) 43 R128_smallest
     = Some (''0.00000000000000000005'' @ CHR 0x00 # replicate 20 (CHR ''#''), 22)
   \<and> c_string (''0.00000000000000000005'' @ CHR 0x00 # replicate 20 (CHR ''#''))
     = ''0.00000000000000000005''
   \<and> r128FromString ''0.00000000000000000005'' = Some (R128_zero, ''.00000000000000000005'')
   \<and> R128_zero \<noteq> R128_smallest"
  by (simp only: r128ToString_smallest c_string_smallest r128FromString_smallest simp_thms)
    (simp add: R128_zero_def R128_smallest_def)

end
